theory Spec2Isabelle
  imports Complex_Main "HOL-Library.Log_Nat" "HOL-Library.Monad_Syntax" "HOL-Library.Multiset"
begin

section \<open>C++ arithmetic used by the backtester\<close>

text \<open>
  The backtester (section 5 of \<^verbatim>\<open>OOP_TermProject_ver2.cpp\<close>) computes with \<^verbatim>\<open>int\<close>
  (32 bits), \<^verbatim>\<open>long\<close> (64 bits, LP64) and \<^verbatim>\<open>double\<close>. Integer values are modelled by
  their mathematical value in \<^typ>\<open>int\<close>; every operation whose C++ result would leave the
  range of its type (signed overflow, an out-of-range conversion from \<^verbatim>\<open>double\<close>, an integer
  division by zero) has no defined result and is \<^term>\<open>None\<close> in the model. A narrowing
  conversion from \<^verbatim>\<open>long\<close> to \<^verbatim>\<open>int\<close> wraps modulo \<open>2^32\<close>. Integer division truncates
  toward zero.
\<close>

definition INT_MAX :: int where "INT_MAX = 2147483647"
definition INT_MIN :: int where "INT_MIN = - 2147483648"
definition LONG_MAX :: int where "LONG_MAX = 9223372036854775807"
definition LONG_MIN :: int where "LONG_MIN = - 9223372036854775808"

definition chk_int :: "int \<Rightarrow> int option" where
  "chk_int x = (if INT_MIN \<le> x \<and> x \<le> INT_MAX then Some x else None)"

definition chk_long :: "int \<Rightarrow> int option" where
  "chk_long x = (if LONG_MIN \<le> x \<and> x \<le> LONG_MAX then Some x else None)"

definition narrow_int :: "int \<Rightarrow> int" where
  "narrow_int x = signed_take_bit 31 x"

definition c_div :: "int \<Rightarrow> int \<Rightarrow> int" where
  "c_div a b = (if (a < 0) = (b < 0) then \<bar>a\<bar> div \<bar>b\<bar> else - (\<bar>a\<bar> div \<bar>b\<bar>))"

definition long_div :: "int \<Rightarrow> int \<Rightarrow> int option" where
  "long_div a b = (if b = 0 then None else chk_long (c_div a b))"

text \<open>
  A \<^verbatim>\<open>double\<close> is modelled by its real value. Every arithmetic operation returns the
  exact result rounded to 53 significant bits, ties to even (\<open>round_double\<close>). The
  exponent range is not limited: in this program a product that would overflow to
  infinity is always converted to an integer next, which is out of range either way, and
  quotients are taken of integers by positive integers. NaN does not occur in the functions
  modelled here.
\<close>

type_synonym double = real

definition ilog2 :: "real \<Rightarrow> int" where
  "ilog2 x = (if 1 \<le> x then int (floorlog 2 (nat \<lfloor>x\<rfloor>)) - 1
              else - int (floorlog 2 (nat (\<lceil>1 / x\<rceil> - 1))))"

definition round_half_even :: "real \<Rightarrow> int" where
  "round_half_even t =
     (let f = \<lfloor>t\<rfloor>; d = t - of_int f
      in if d < 1/2 then f else if 1/2 < d then f + 1 else if even f then f else f + 1)"

definition round_double :: "real \<Rightarrow> double" where
  "round_double x =
     (if x = 0 then 0
      else let u = 2 powi (ilog2 \<bar>x\<bar> - 52)
           in sgn x * (of_int (round_half_even (\<bar>x\<bar> / u)) * u))"

definition dmul :: "double \<Rightarrow> double \<Rightarrow> double" where
  "dmul x y = round_double (x * y)"

definition ddiv :: "double \<Rightarrow> double \<Rightarrow> double" where
  "ddiv x y = round_double (x / y)"

definition int_to_double :: "int \<Rightarrow> double" where
  "int_to_double n = of_int n"

definition long_to_double :: "int \<Rightarrow> double" where
  "long_to_double n = round_double (of_int n)"

definition trunc_zero :: "real \<Rightarrow> int" where
  "trunc_zero x = (if 0 \<le> x then \<lfloor>x\<rfloor> else \<lceil>x\<rceil>)"

definition double_to_long :: "double \<Rightarrow> int option" where
  "double_to_long x = chk_long (trunc_zero x)"

definition double_to_int :: "double \<Rightarrow> int option" where
  "double_to_int x = chk_int (trunc_zero x)"

section \<open>Data model\<close>

text \<open>The default parameters; a decimal literal denotes the nearest \<^verbatim>\<open>double\<close>.\<close>

definition DEFAULT_FEE_RATE :: double where "DEFAULT_FEE_RATE = round_double (15 / 100000)"
definition DEFAULT_PANIC_THRESHOLD :: double where "DEFAULT_PANIC_THRESHOLD = round_double (- 1 / 10)"
definition DEFAULT_DCA_DROP_RATE :: double where "DEFAULT_DCA_DROP_RATE = round_double (- 5 / 100)"
definition DEFAULT_DCA_INTERVAL :: int where "DEFAULT_DCA_INTERVAL = 5"
definition DEFAULT_DCA_BUY_RATIO :: double where "DEFAULT_DCA_BUY_RATIO = round_double (25 / 100)"
definition DEFAULT_HOLD_BUY_RATIO :: double where "DEFAULT_HOLD_BUY_RATIO = round_double (5 / 10)"
definition DEFAULT_INITIAL_CASH :: int where "DEFAULT_INITIAL_CASH = 10000000"

record StrategyReport =
  strategyName :: string
  initialCash :: int
  finalEquity :: int
  totalReturn :: double
  maxDrawdown :: double
  buyCount :: int
  sellCount :: int
  finalShares :: int
  avgPrice :: int

text \<open>The protected state of class \<^verbatim>\<open>TradingStrategy\<close> (the display name is left out).\<close>

record TradingStrategy =
  cash :: int
  shares :: int
  avgPrice :: int
  equityHistory :: "int list"
  buyCount :: int
  sellCount :: int

record PanicSellStrategy = TradingStrategy +
  stopLossRate :: double
  feeRate :: double
  hasBought :: bool

record DCAStrategy = TradingStrategy +
  dcaDropRate :: double
  dcaInterval :: int
  buyRatio :: double
  feeRate :: double
  lastBuyIndex :: int
  lastBuyPrice :: int

record HoldStrategy = TradingStrategy +
  initialBuyRatio :: double
  feeRate :: double
  hasBought :: bool

datatype Strategy = PanicSell PanicSellStrategy | DCA DCAStrategy | Hold HoldStrategy

section \<open>TradingStrategy: the position ledger\<close>

definition buy :: "int \<Rightarrow> int \<Rightarrow> double \<Rightarrow> 'a TradingStrategy_scheme
    \<Rightarrow> 'a TradingStrategy_scheme option" where
  "buy price qty fee_rate s = do {
     let cost = price * qty;
     fee \<leftarrow> double_to_long (dmul (long_to_double cost) fee_rate);
     total \<leftarrow> chk_long (cost + fee);
     if total \<le> cash s \<and> 0 < qty then do {
       totalCost \<leftarrow> chk_long (avgPrice s * shares s + cost);
       shares' \<leftarrow> chk_int (shares s + qty);
       cash' \<leftarrow> chk_long (cash s - total);
       count' \<leftarrow> chk_int (buyCount s + 1);
       Some (s\<lparr>shares := shares',
               avgPrice := (if 0 < shares' then narrow_int (c_div totalCost shares') else 0),
               cash := cash',
               buyCount := count'\<rparr>)
     } else Some s
   }"

definition sellAll :: "int \<Rightarrow> double \<Rightarrow> 'a TradingStrategy_scheme
    \<Rightarrow> 'a TradingStrategy_scheme option" where
  "sellAll price fee_rate s =
     (if 0 < shares s then do {
        let revenue = price * shares s;
        fee \<leftarrow> double_to_long (dmul (long_to_double revenue) fee_rate);
        net \<leftarrow> chk_long (revenue - fee);
        cash' \<leftarrow> chk_long (cash s + net);
        count' \<leftarrow> chk_int (sellCount s + 1);
        Some (s\<lparr>cash := cash', shares := 0, avgPrice := 0, sellCount := count'\<rparr>)
      } else Some s)"

definition getTotalValue :: "'a TradingStrategy_scheme \<Rightarrow> int \<Rightarrow> int option" where
  "getTotalValue s price = chk_long (cash s + shares s * price)"

definition recordEquity :: "int \<Rightarrow> 'a TradingStrategy_scheme
    \<Rightarrow> 'a TradingStrategy_scheme option" where
  "recordEquity price s = do {
     v \<leftarrow> getTotalValue s price;
     Some (s\<lparr>equityHistory := equityHistory s @ [v]\<rparr>)
   }"

text \<open>A ledger with the given cash, shares and average price, and no history.\<close>

definition mk_ledger :: "int \<Rightarrow> int \<Rightarrow> int \<Rightarrow> TradingStrategy" where
  "mk_ledger c n a =
     \<lparr>cash = c, shares = n, avgPrice = a, equityHistory = [], buyCount = 0, sellCount = 0\<rparr>"

section \<open>The three strategies\<close>

definition new_PanicSellStrategy :: "int \<Rightarrow> double \<Rightarrow> double \<Rightarrow> PanicSellStrategy" where
  "new_PanicSellStrategy initCash threshold fee =
     \<lparr>cash = initCash, shares = 0, avgPrice = 0, equityHistory = [], buyCount = 0,
      sellCount = 0, stopLossRate = threshold, feeRate = fee, hasBought = False\<rparr>"

definition new_DCAStrategy :: "int \<Rightarrow> double \<Rightarrow> int \<Rightarrow> double \<Rightarrow> double \<Rightarrow> DCAStrategy" where
  "new_DCAStrategy initCash dropRate interval ratio fee =
     \<lparr>cash = initCash, shares = 0, avgPrice = 0, equityHistory = [], buyCount = 0,
      sellCount = 0, dcaDropRate = dropRate, dcaInterval = interval, buyRatio = ratio,
      feeRate = fee, lastBuyIndex = - 1, lastBuyPrice = 0\<rparr>"

definition new_HoldStrategy :: "int \<Rightarrow> double \<Rightarrow> double \<Rightarrow> HoldStrategy" where
  "new_HoldStrategy initCash ratio fee =
     \<lparr>cash = initCash, shares = 0, avgPrice = 0, equityHistory = [], buyCount = 0,
      sellCount = 0, initialBuyRatio = ratio, feeRate = fee, hasBought = False\<rparr>"

text \<open>
  \<^verbatim>\<open>onPrice(idx, price, changeRate)\<close>: no strategy reads \<^verbatim>\<open>changeRate\<close>, so the
  parameter is left out. \<open>per_share\<close> is the divisor \<^verbatim>\<open>price + (int)(price * feeRate)\<close>
  that all three strategies use.
\<close>

definition per_share :: "int \<Rightarrow> double \<Rightarrow> int option" where
  "per_share price fee_rate = do {
     f \<leftarrow> double_to_int (dmul (int_to_double price) fee_rate);
     chk_int (price + f)
   }"

definition PanicSell_onPrice :: "nat \<Rightarrow> int \<Rightarrow> PanicSellStrategy \<Rightarrow> PanicSellStrategy option" where
  "PanicSell_onPrice idx price s = do {
     s1 \<leftarrow> (if \<not> PanicSellStrategy.hasBought s \<and> price \<le> cash s then do {
              d \<leftarrow> per_share price (PanicSellStrategy.feeRate s);
              q \<leftarrow> long_div (cash s) d;
              let qty = narrow_int q;
              if 0 < qty then do {
                s' \<leftarrow> buy price qty (PanicSellStrategy.feeRate s) s;
                Some (s'\<lparr>PanicSellStrategy.hasBought := True\<rparr>)
              } else Some s
            }
            else if 0 < shares s \<and> 0 < avgPrice s then do {
              diff \<leftarrow> chk_int (price - avgPrice s);
              let profitRate = ddiv (int_to_double diff) (int_to_double (avgPrice s));
              if profitRate \<le> stopLossRate s
              then sellAll price (PanicSellStrategy.feeRate s) s
              else Some s
            }
            else Some s);
     recordEquity price s1
   }"

definition DCA_shouldBuy :: "nat \<Rightarrow> int \<Rightarrow> DCAStrategy \<Rightarrow> bool option" where
  "DCA_shouldBuy idx price s =
     (if lastBuyIndex s < 0 \<and> price \<le> cash s then Some True
      else if price \<le> cash s then do {
        gap \<leftarrow> chk_int (narrow_int (int idx) - lastBuyIndex s);
        let intervalMet = (dcaInterval s \<le> gap);
        dropMet \<leftarrow> (if 0 < lastBuyPrice s then do {
                      diff \<leftarrow> chk_int (price - lastBuyPrice s);
                      Some (ddiv (int_to_double diff) (int_to_double (lastBuyPrice s))
                              \<le> dcaDropRate s)
                    } else Some False);
        Some (intervalMet \<or> dropMet)
      }
      else Some False)"

definition DCA_onPrice :: "nat \<Rightarrow> int \<Rightarrow> DCAStrategy \<Rightarrow> DCAStrategy option" where
  "DCA_onPrice idx price s = do {
     shouldBuy \<leftarrow> DCA_shouldBuy idx price s;
     s1 \<leftarrow> (if shouldBuy then do {
              amount \<leftarrow> double_to_long (dmul (long_to_double (cash s)) (buyRatio s));
              let buyAmount = (if amount < price then cash s else amount);
              d \<leftarrow> per_share price (DCAStrategy.feeRate s);
              q \<leftarrow> long_div buyAmount d;
              let qty = narrow_int q;
              if 0 < qty then do {
                s' \<leftarrow> buy price qty (DCAStrategy.feeRate s) s;
                Some (s'\<lparr>lastBuyIndex := narrow_int (int idx), lastBuyPrice := price\<rparr>)
              } else Some s
            } else Some s);
     recordEquity price s1
   }"

definition Hold_onPrice :: "nat \<Rightarrow> int \<Rightarrow> HoldStrategy \<Rightarrow> HoldStrategy option" where
  "Hold_onPrice idx price s = do {
     s1 \<leftarrow> (if \<not> HoldStrategy.hasBought s \<and> price \<le> cash s then do {
              buyAmount \<leftarrow> double_to_long (dmul (long_to_double (cash s)) (initialBuyRatio s));
              d \<leftarrow> per_share price (HoldStrategy.feeRate s);
              q \<leftarrow> long_div buyAmount d;
              let qty = narrow_int q;
              if 0 < qty then do {
                s' \<leftarrow> buy price qty (HoldStrategy.feeRate s) s;
                Some (s'\<lparr>HoldStrategy.hasBought := True\<rparr>)
              } else Some s
            } else Some s);
     recordEquity price s1
   }"

fun onPrice :: "nat \<Rightarrow> int \<Rightarrow> Strategy \<Rightarrow> Strategy option" where
  "onPrice idx price (PanicSell s) = map_option PanicSell (PanicSell_onPrice idx price s)"
| "onPrice idx price (DCA s) = map_option DCA (DCA_onPrice idx price s)"
| "onPrice idx price (Hold s) = map_option Hold (Hold_onPrice idx price s)"

fun ledger :: "Strategy \<Rightarrow> TradingStrategy" where
  "ledger (PanicSell s) = TradingStrategy.truncate s"
| "ledger (DCA s) = TradingStrategy.truncate s"
| "ledger (Hold s) = TradingStrategy.truncate s"

section \<open>BacktestEngine\<close>

definition getPriceAt :: "int list \<Rightarrow> nat \<Rightarrow> int" where
  "getPriceAt priceHistory idx = (if length priceHistory \<le> idx then - 1 else priceHistory ! idx)"

fun tick_strategies :: "nat \<Rightarrow> int \<Rightarrow> Strategy list \<Rightarrow> Strategy list option" where
  "tick_strategies i price [] = Some []"
| "tick_strategies i price (s # rest) = do {
     s' \<leftarrow> onPrice i price s;
     rest' \<leftarrow> tick_strategies i price rest;
     Some (s' # rest')
   }"

text \<open>
  The replay loop of \<^verbatim>\<open>runBattle\<close>. \<^verbatim>\<open>changeRate\<close> is computed from the \<^verbatim>\<open>int\<close>
  difference \<^verbatim>\<open>price - prevPrice\<close> for every tick but the first; the value is unused, the
  subtraction must not overflow. The report records built after the loop do not change the
  strategies and are not part of this function.
\<close>

function run_loop :: "int list \<Rightarrow> Strategy list \<Rightarrow> int \<Rightarrow> nat \<Rightarrow> Strategy list option" where
  "run_loop prices strategies prevPrice i =
     (if i < length prices then do {
        let price = getPriceAt prices i;
        _ \<leftarrow> (if i = 0 then Some 0 else chk_int (price - prevPrice));
        strategies' \<leftarrow> tick_strategies i price strategies;
        run_loop prices strategies' price (i + 1)
      } else Some strategies)"
  by pat_completeness auto
termination
  by (relation "measure (\<lambda>(prices, strategies, prevPrice, i). length prices - i)") auto

declare run_loop.simps [simp del]

definition runBattle :: "int list \<Rightarrow> Strategy list \<Rightarrow> Strategy list option" where
  "runBattle prices strategies =
     (if length prices = 0 then Some strategies
      else run_loop prices strategies (getPriceAt prices 0) 0)"

text \<open>
  The states one strategy passes through when it is given the prices \<open>ps\<close> as the ticks
  \<open>i\<close>, \<open>i + 1\<close>, \<dots>: the entry at position \<open>k\<close> is the state after tick \<open>i + k\<close>.
\<close>

fun replay :: "int list \<Rightarrow> nat \<Rightarrow> Strategy \<Rightarrow> Strategy list option" where
  "replay [] i s = Some []"
| "replay (p # ps) i s = do {
     s1 \<leftarrow> onPrice i p s;
     rest \<leftarrow> replay ps (Suc i) s1;
     Some (s1 # rest)
   }"

fun mdd_loop :: "int list \<Rightarrow> int \<Rightarrow> double \<Rightarrow> double option" where
  "mdd_loop [] peak maxDD = Some maxDD"
| "mdd_loop (equity # rest) peak maxDD =
     (let peak' = (if peak < equity then equity else peak)
      in if 0 < peak' then do {
           d \<leftarrow> chk_long (peak' - equity);
           let dd = ddiv (long_to_double d) (long_to_double peak');
           mdd_loop rest peak' (if maxDD < dd then dd else maxDD)
         } else mdd_loop rest peak' maxDD)"

definition calculateMDD :: "int list \<Rightarrow> double option" where
  "calculateMDD history =
     (if history = [] then Some 0
      else do { maxDD \<leftarrow> mdd_loop history 0 0; Some (dmul maxDD 100) })"

section \<open>BacktestReport: ranking\<close>

text \<open>
  The bubble sort of \<^verbatim>\<open>printRanking\<close>; \<open>ranking\<close> is the vector that is printed. The
  total returns compared are finite values.
\<close>

function rank_inner :: "StrategyReport list \<Rightarrow> nat \<Rightarrow> nat \<Rightarrow> StrategyReport list" where
  "rank_inner ranked i j =
     (if j < length ranked - 1 - i
      then rank_inner
             (if totalReturn (ranked ! j) < totalReturn (ranked ! (j + 1))
              then ranked[j := ranked ! (j + 1), j + 1 := ranked ! j]
              else ranked) i (j + 1)
      else ranked)"
  by pat_completeness auto
termination
  by (relation "measure (\<lambda>(ranked, i, j). length ranked - 1 - i - j)") auto

declare rank_inner.simps [simp del]

function rank_outer :: "StrategyReport list \<Rightarrow> nat \<Rightarrow> StrategyReport list" where
  "rank_outer ranked i =
     (if i < length ranked then rank_outer (rank_inner ranked i 0) (i + 1) else ranked)"
  by pat_completeness auto
termination
proof (relation "measure (\<lambda>(ranked, i). length ranked - i)")
  show "wf (measure (\<lambda>(ranked :: StrategyReport list, i). length ranked - i))"
    by simp
next
  fix ranked :: "StrategyReport list" and i :: nat
  assume "i < length ranked"
  have "length (rank_inner r a b) = length r" for r a b
    by (induction r a b rule: rank_inner.induct) (subst rank_inner.simps, simp)
  then show "((rank_inner ranked i 0, i + 1), (ranked, i))
      \<in> measure (\<lambda>(ranked, i). length ranked - i)"
    using \<open>i < length ranked\<close> by simp
qed

declare rank_outer.simps [simp del]

definition ranking :: "StrategyReport list \<Rightarrow> StrategyReport list" where
  "ranking results = rank_outer results 0"

text \<open>A report with the given name and total return, the other fields zero.\<close>

definition mk_report :: "string \<Rightarrow> double \<Rightarrow> StrategyReport" where
  "mk_report n r =
     \<lparr>strategyName = n, initialCash = 0, finalEquity = 0, totalReturn = r, maxDrawdown = 0,
      buyCount = 0, sellCount = 0, finalShares = 0, avgPrice = 0\<rparr>"

section \<open>Invariants\<close>

text \<open>
  What holds of a PanicSell strategy at every tick: the counters are 0 or 1; before the
  first purchase attempt nothing has been traded; shares are held only while nothing has
  been sold.
\<close>

definition panic_inv :: "PanicSellStrategy \<Rightarrow> bool" where
  "panic_inv s \<longleftrightarrow>
     (buyCount s = 0 \<or> buyCount s = 1) \<and> (sellCount s = 0 \<or> sellCount s = 1) \<and>
     (PanicSellStrategy.hasBought s \<or> (buyCount s = 0 \<and> shares s = 0 \<and> sellCount s = 0)) \<and>
     (shares s = 0 \<or> sellCount s = 0)"

fun is_panic :: "Strategy \<Rightarrow> bool" where
  "is_panic (PanicSell s) = panic_inv s"
| "is_panic _ = False"

text \<open>
  The ledger invariant: cash, shares and average price are non-negative (and the average
  price is an \<^verbatim>\<open>int\<close>).
\<close>

definition ledger_inv :: "'a TradingStrategy_scheme \<Rightarrow> bool" where
  "ledger_inv s \<longleftrightarrow> 0 \<le> cash s \<and> 0 \<le> shares s \<and> 0 \<le> avgPrice s \<and> avgPrice s \<le> INT_MAX"

fun fee_rate_of :: "Strategy \<Rightarrow> double" where
  "fee_rate_of (PanicSell s) = PanicSellStrategy.feeRate s"
| "fee_rate_of (DCA s) = DCAStrategy.feeRate s"
| "fee_rate_of (Hold s) = HoldStrategy.feeRate s"

text \<open>
  The range in which a run stays within its types. A ledger is \<open>funded\<close> when it satisfies
  the ledger invariant, cash and shares together do not exceed \<^verbatim>\<open>INT_MAX\<close> (a share
  costs at least 1, so no purchase can then overflow the share count), and the buy counter
  does not exceed the shares. A PanicSell strategy is \<open>idle\<close> once it has made its purchase
  and holds nothing: it will not trade again, and its cash only has to fit a \<^verbatim>\<open>long\<close>
  with room to spare. \<open>in_range\<close> adds that the fee rate and the buy ratios are fractions
  in \<open>[0, 1]\<close> and that the DCA bookkeeping holds \<^verbatim>\<open>int\<close> values.
\<close>

definition funded :: "'a TradingStrategy_scheme \<Rightarrow> bool" where
  "funded s \<longleftrightarrow> ledger_inv s \<and> cash s + shares s \<le> INT_MAX
     \<and> 0 \<le> buyCount s \<and> buyCount s \<le> shares s"

definition idle :: "PanicSellStrategy \<Rightarrow> bool" where
  "idle s \<longleftrightarrow> PanicSellStrategy.hasBought s \<and> shares s = 0
     \<and> - (2 ^ 62) \<le> cash s \<and> cash s \<le> 2 ^ 62"

fun in_range :: "Strategy \<Rightarrow> bool" where
  "in_range (PanicSell s) \<longleftrightarrow>
     0 \<le> PanicSellStrategy.feeRate s \<and> PanicSellStrategy.feeRate s \<le> 1 \<and> panic_inv s \<and>
     (idle s \<or> funded s)"
| "in_range (DCA s) \<longleftrightarrow>
     0 \<le> DCAStrategy.feeRate s \<and> DCAStrategy.feeRate s \<le> 1 \<and>
     0 \<le> buyRatio s \<and> buyRatio s \<le> 1 \<and> funded s \<and>
     0 \<le> lastBuyPrice s \<and> lastBuyPrice s \<le> INT_MAX \<and>
     - 1 \<le> lastBuyIndex s \<and> lastBuyIndex s \<le> INT_MAX"
| "in_range (Hold s) \<longleftrightarrow>
     0 \<le> HoldStrategy.feeRate s \<and> HoldStrategy.feeRate s \<le> 1 \<and>
     0 \<le> initialBuyRatio s \<and> initialBuyRatio s \<le> 1 \<and> funded s"

section \<open>Properties of the arithmetic\<close>

subsection \<open>The binary exponent\<close>

lemma ilog2_ge1:
  assumes "1 \<le> x"
  shows "2 powi (ilog2 x) \<le> x \<and> x < 2 powi (ilog2 x + 1)"
proof -
  define n where "n = nat \<lfloor>x\<rfloor>"
  define k where "k = floorlog 2 n"
  have n0: "0 < n" using assms by (simp add: n_def)
  have b: "2 ^ (k - 1) \<le> n \<and> n < 2 ^ k"
    unfolding k_def using floorlog_bounds[of n 2] n0 by simp
  have k0: "0 < k" using b n0 by (cases k) auto
  have nx: "real n \<le> x" "x < real n + 1" using assms by (simp_all add: n_def)
  have e: "ilog2 x = int k - 1" using assms by (simp add: ilog2_def n_def k_def)
  have p1: "(2::real) powi (int k - 1) = 2 ^ (k - 1)"
    using k0 by (simp add: power_int_def nat_diff_distrib')
  have p2: "(2::real) powi (int k - 1 + 1) = 2 ^ k"
    by (simp add: power_int_def)
  have "real (2 ^ (k - 1)) \<le> real n" using b by (simp only: of_nat_le_iff)
  moreover have "real (2 ^ (k - 1)) = (2::real) ^ (k - 1)" by simp
  ultimately have l: "(2::real) ^ (k - 1) \<le> x" using nx by linarith
  have "n + 1 \<le> 2 ^ k" using b by simp
  then have "real (n + 1) \<le> real (2 ^ k)" by (simp only: of_nat_le_iff)
  then have "real n + 1 \<le> 2 ^ k" by simp
  then have u: "x < (2::real) ^ k" using nx by linarith
  show ?thesis unfolding e p1 p2 using l u by blast
qed

lemma ilog2_lt1:
  assumes "0 < x" "x < 1"
  shows "2 powi (ilog2 x) \<le> x \<and> x < 2 powi (ilog2 x + 1)"
proof -
  define c where "c = \<lceil>1 / x\<rceil>"
  define n where "n = nat (c - 1)"
  define k where "k = floorlog 2 n"
  have y1: "1 < 1 / x" using assms by simp
  have c2: "2 \<le> c" unfolding c_def using y1 by linarith
  have n0: "0 < n" using c2 by (simp add: n_def)
  have nc: "int n = c - 1" using c2 by (simp add: n_def)
  have b: "2 ^ (k - 1) \<le> n \<and> n < 2 ^ k"
    unfolding k_def using floorlog_bounds[of n 2] n0 by simp
  have k0: "0 < k" using b n0 by (cases k) auto
  have e: "ilog2 x = - int k" using assms by (simp add: ilog2_def n_def k_def c_def)
  have cy: "real_of_int c - 1 < 1 / x" "1 / x \<le> real_of_int c" unfolding c_def by linarith+
  have rn: "real n = real_of_int c - 1" using nc by linarith
  have "real (2 ^ (k - 1)) \<le> real n" using b by (simp only: of_nat_le_iff)
  moreover have "real (2 ^ (k - 1)) = (2::real) ^ (k - 1)" by simp
  ultimately have l: "(2::real) ^ (k - 1) < 1 / x" using cy rn by linarith
  have "n + 1 \<le> 2 ^ k" using b by simp
  then have "real (n + 1) \<le> real (2 ^ k)" by (simp only: of_nat_le_iff)
  then have "real n + 1 \<le> 2 ^ k" by simp
  then have u: "1 / x \<le> (2::real) ^ k" using cy rn by linarith
  have p1: "(2::real) powi (- int k) = 1 / 2 ^ k"
    by (simp add: power_int_def field_simps)
  have p2: "(2::real) powi (- int k + 1) = 1 / 2 ^ (k - 1)"
    using k0 by (cases k) (simp_all add: power_int_def field_simps nat_add_distrib)
  have a1: "1 / 2 ^ k \<le> x" using u assms(1) by (simp add: field_simps)
  have a2: "x < 1 / 2 ^ (k - 1)" using l assms(1) by (simp add: field_simps)
  show ?thesis unfolding e p1 p2 using a1 a2 by blast
qed

lemma ilog2_bounds:
  assumes "0 < x"
  shows "2 powi (ilog2 x) \<le> x" "x < 2 powi (ilog2 x + 1)"
  using ilog2_ge1[of x] ilog2_lt1[of x] assms by (cases "1 \<le> x"; simp)+

lemma ilog2_unique:
  assumes "0 < x" "2 powi e \<le> x" "x < 2 powi (e + 1)"
  shows "ilog2 x = e"
proof (rule ccontr)
  assume ne: "ilog2 x \<noteq> e"
  note b = ilog2_bounds[OF assms(1)]
  show False
  proof (cases "ilog2 x < e")
    case True
    then have "(2::real) powi (ilog2 x + 1) \<le> 2 powi e"
      by (intro power_int_increasing) auto
    with b assms show False by linarith
  next
    case False
    with ne have "e + 1 \<le> ilog2 x" by simp
    then have "(2::real) powi (e + 1) \<le> 2 powi (ilog2 x)"
      by (intro power_int_increasing) auto
    with b assms show False by linarith
  qed
qed

lemma ilog2_mono:
  assumes "0 < x" "x \<le> y"
  shows "ilog2 x \<le> ilog2 y"
proof (rule ccontr)
  assume "\<not> ilog2 x \<le> ilog2 y"
  then have "ilog2 y + 1 \<le> ilog2 x" by simp
  then have "(2::real) powi (ilog2 y + 1) \<le> 2 powi (ilog2 x)"
    by (intro power_int_increasing) auto
  moreover have "0 < y" using assms by simp
  ultimately show False
    using ilog2_bounds[OF assms(1)] ilog2_bounds[OF \<open>0 < y\<close>] assms(2) by linarith
qed

lemma round_half_even_near: "\<bar>of_int (round_half_even t) - t\<bar> \<le> 1 / 2"
  unfolding round_half_even_def Let_def by (auto; linarith)

lemma round_half_even_of_int [simp]: "round_half_even (of_int n) = n"
  by (simp add: round_half_even_def)

lemma round_half_even_mono:
  assumes "t \<le> t'"
  shows "round_half_even t \<le> round_half_even t'"
proof (rule ccontr)
  assume "\<not> round_half_even t \<le> round_half_even t'"
  then have "round_half_even t' + 1 \<le> round_half_even t" by simp
  then have g: "real_of_int (round_half_even t') + 1 \<le> real_of_int (round_half_even t)"
    by linarith
  have "t = t'"
    using g round_half_even_near[of t] round_half_even_near[of t'] assms by linarith
  with \<open>\<not> round_half_even t \<le> round_half_even t'\<close> show False by simp
qed

lemma round_double_0 [simp]: "round_double 0 = 0"
  by (simp add: round_double_def)

lemma round_double_minus: "round_double (- x) = - round_double x"
  by (simp add: round_double_def Let_def sgn_minus)

lemma round_double_pos:
  assumes "0 < x"
  shows "round_double x =
    of_int (round_half_even (x / 2 powi (ilog2 x - 52))) * 2 powi (ilog2 x - 52)"
  using assms by (simp add: round_double_def Let_def)

lemma scaled_range:
  assumes "0 < x"
  shows "2 ^ 52 \<le> x / 2 powi (ilog2 x - 52)" "x / 2 powi (ilog2 x - 52) < 2 ^ 53"
proof -
  have u: "(0::real) < 2 powi (ilog2 x - 52)" by simp
  have a: "(2::real) powi (ilog2 x) = 2 ^ 52 * 2 powi (ilog2 x - 52)"
    using power_int_add[of "2::real" 52 "ilog2 x - 52"] by simp
  have b: "(2::real) powi (ilog2 x + 1) = 2 ^ 53 * 2 powi (ilog2 x - 52)"
    using power_int_add[of "2::real" 53 "ilog2 x - 52"] by (simp add: add.commute)
  show "2 ^ 52 \<le> x / 2 powi (ilog2 x - 52)"
    using ilog2_bounds(1)[OF assms] u unfolding a by (simp add: pos_le_divide_eq)
  show "x / 2 powi (ilog2 x - 52) < 2 ^ 53"
    using ilog2_bounds(2)[OF assms] u unfolding b by (simp add: pos_divide_less_eq)
qed

lemma round_double_range:
  assumes "0 < x"
  shows "2 powi (ilog2 x) \<le> round_double x" "round_double x \<le> 2 powi (ilog2 x + 1)"
proof -
  let ?u = "(2::real) powi (ilog2 x - 52)"
  let ?t = "x / ?u"
  have u: "0 < ?u" by simp
  have "round_half_even (of_int (2 ^ 52)) \<le> round_half_even ?t"
    using scaled_range(1)[OF assms] by (intro round_half_even_mono) simp
  then have "real_of_int (2 ^ 52) \<le> real_of_int (round_half_even ?t)"
    unfolding round_half_even_of_int by (simp only: of_int_le_iff)
  then have lo: "(2::real) ^ 52 \<le> of_int (round_half_even ?t)" by simp
  have "round_half_even ?t \<le> round_half_even (of_int (2 ^ 53))"
    using scaled_range(2)[OF assms] by (intro round_half_even_mono) simp
  then have "real_of_int (round_half_even ?t) \<le> real_of_int (2 ^ 53)"
    unfolding round_half_even_of_int by (simp only: of_int_le_iff)
  then have hi: "of_int (round_half_even ?t) \<le> (2::real) ^ 53" by simp
  have a: "(2::real) powi (ilog2 x) = 2 ^ 52 * ?u"
    using power_int_add[of "2::real" 52 "ilog2 x - 52"] by simp
  have b: "(2::real) powi (ilog2 x + 1) = 2 ^ 53 * ?u"
    using power_int_add[of "2::real" 53 "ilog2 x - 52"] by (simp add: add.commute)
  show "2 powi (ilog2 x) \<le> round_double x"
    unfolding round_double_pos[OF assms] a using lo u by (intro mult_right_mono) simp_all
  show "round_double x \<le> 2 powi (ilog2 x + 1)"
    unfolding round_double_pos[OF assms] b using hi u by (intro mult_right_mono) simp_all
qed

lemma round_double_pos_pos: "0 < x \<Longrightarrow> 0 < round_double x"
proof -
  assume "0 < x"
  moreover have "(0::real) < 2 powi (ilog2 x)" by simp
  ultimately show ?thesis using round_double_range(1)[of x] by linarith
qed

lemma round_double_mono_pos:
  assumes "0 < x" "x \<le> y"
  shows "round_double x \<le> round_double y"
proof -
  have y: "0 < y" using assms by simp
  show ?thesis
  proof (cases "ilog2 x = ilog2 y")
    case True
    have "x / 2 powi (ilog2 y - 52) \<le> y / 2 powi (ilog2 y - 52)"
      using assms(2) by (simp add: divide_right_mono)
    then have "round_half_even (x / 2 powi (ilog2 y - 52))
        \<le> round_half_even (y / 2 powi (ilog2 y - 52))"
      by (rule round_half_even_mono)
    then show ?thesis
      unfolding round_double_pos[OF assms(1)] round_double_pos[OF y] True
      by (intro mult_right_mono) simp_all
  next
    case False
    with ilog2_mono[OF assms] have "ilog2 x + 1 \<le> ilog2 y" by simp
    then have "(2::real) powi (ilog2 x + 1) \<le> 2 powi (ilog2 y)"
      by (intro power_int_increasing) auto
    with round_double_range(2)[OF assms(1)] round_double_range(1)[OF y]
    show ?thesis by linarith
  qed
qed

lemma round_double_nonneg: "0 \<le> x \<Longrightarrow> 0 \<le> round_double x"
  using round_double_pos_pos[of x] by (cases "x = 0") auto

lemma round_double_mono:
  assumes "x \<le> y"
  shows "round_double x \<le> round_double y"
proof -
  consider "0 < x" | "x \<le> 0" "0 \<le> y" | "y < 0" by linarith
  then show ?thesis
  proof cases
    case 1
    then show ?thesis using assms by (rule round_double_mono_pos)
  next
    case 2
    have "round_double x \<le> 0"
      using round_double_nonneg[of "- x"] 2(1) by (simp add: round_double_minus)
    moreover have "0 \<le> round_double y" using 2(2) by (rule round_double_nonneg)
    ultimately show ?thesis by simp
  next
    case 3
    have "round_double (- y) \<le> round_double (- x)"
      using 3 assms by (intro round_double_mono_pos) auto
    then show ?thesis by (simp add: round_double_minus)
  qed
qed

lemma round_double_exact_pos:
  assumes "0 < m" "m < 2 ^ 53"
  shows "round_double (of_int m * 2 powi k) = of_int m * 2 powi k"
proof -
  let ?x = "real_of_int m * 2 powi k"
  have x: "0 < ?x" using assms(1) by simp
  define e where "e = ilog2 ?x"
  have "real_of_int m < 2 ^ 53" using assms(2) by (metis of_int_less_iff of_int_numeral of_int_power)
  then have "?x < 2 ^ 53 * 2 powi k" by simp
  also have "\<dots> = 2 powi (53 + k)"
    using power_int_add[of "2::real" 53 k] by simp
  finally have "(2::real) powi e < 2 powi (53 + k)"
    using ilog2_bounds(1)[OF x] unfolding e_def by linarith
  then have "e < 53 + k"
    using power_int_increasing[of "53 + k" e "2::real"] by (cases "e < 53 + k") auto
  then have d: "0 \<le> k - (e - 52)" by simp
  have "?x / 2 powi (e - 52) = of_int m * 2 powi (k - (e - 52))"
    by (simp add: power_int_diff)
  also have "\<dots> = of_int (m * 2 ^ nat (k - (e - 52)))"
    using d by (simp add: power_int_def)
  finally have t: "?x / 2 powi (e - 52) = of_int (m * 2 ^ nat (k - (e - 52)))" .
  have "round_double ?x = of_int (m * 2 ^ nat (k - (e - 52))) * 2 powi (e - 52)"
    unfolding round_double_pos[OF x] e_def[symmetric] t round_half_even_of_int ..
  also have "\<dots> = ?x / 2 powi (e - 52) * 2 powi (e - 52)"
    by (simp only: t)
  also have "\<dots> = ?x" by simp
  finally show ?thesis .
qed

lemma round_double_exact:
  assumes "\<bar>m\<bar> < 2 ^ 53"
  shows "round_double (of_int m * 2 powi k) = of_int m * 2 powi k"
proof -
  consider "0 < m" | "m = 0" | "m < 0" by linarith
  then show ?thesis
  proof cases
    case 1
    then show ?thesis using assms by (intro round_double_exact_pos) auto
  next
    case 2
    then show ?thesis by simp
  next
    case 3
    then have "round_double (of_int (- m) * 2 powi k) = of_int (- m) * 2 powi k"
      using assms by (intro round_double_exact_pos) auto
    then show ?thesis using round_double_minus[of "of_int m * 2 powi k"] by simp
  qed
qed

lemma round_double_of_int:
  assumes "\<bar>n\<bar> < 2 ^ 53"
  shows "round_double (of_int n) = of_int n"
  using round_double_exact[OF assms, of 0] by simp


lemma round_double_at:
  assumes "0 < x" "2 powi e \<le> x" "x < 2 powi (e + 1)"
  shows "round_double x = of_int (round_half_even (x / 2 powi (e - 52))) * 2 powi (e - 52)"
  using round_double_pos[OF assms(1)] ilog2_unique[OF assms] by simp

lemma round_double_1 [simp]: "round_double 1 = 1"
  using round_double_of_int[of 1] by simp

lemma round_double_half [simp]: "round_double (1 / 2) = 1 / 2"
  using round_double_exact[of 1 "- 1"] by simp

lemma long_to_double_exact: "\<bar>n\<bar> < 2 ^ 53 \<Longrightarrow> long_to_double n = of_int n"
  by (simp add: long_to_double_def round_double_of_int)

lemma trunc_zero_of_int [simp]: "trunc_zero (of_int n) = n"
  by (simp add: trunc_zero_def)

lemma trunc_zero_nonneg: "0 \<le> x \<Longrightarrow> trunc_zero x = \<lfloor>x\<rfloor>"
  by (simp add: trunc_zero_def)

subsection \<open>Values of concrete roundings\<close>

lemma round_double_numeral:
  "(numeral k :: int) < 2 ^ 53 \<Longrightarrow> round_double (numeral k) = numeral k"
  using round_double_of_int[of "numeral k"] by simp

lemma round_double_quarter [simp]: "round_double (1 / 4) = 1 / 4"
  using round_double_exact[of 1 "- 2"] by simp

lemma round_double_100 [simp]: "round_double 100 = 100"
  by (simp add: round_double_numeral)

lemma round_double_2 [simp]: "round_double 2 = 2"
  by (simp add: round_double_numeral)

lemma round_double_200 [simp]: "round_double 200 = 200"
  by (simp add: round_double_numeral)

lemma round_double_cost: "round_double 10737418235000000 = 10737418235000000"
  using round_double_exact[of 167772159921875 6] by simp

lemma long_to_double_tie: "long_to_double 9007201398030335 = 9007201398030336"
proof -
  have "round_double 9007201398030335
      = of_int (round_half_even (9007201398030335 / 2 powi (53 - 52))) * 2 powi (53 - 52)"
    by (rule round_double_at) simp_all
  also have "\<dots> = 9007201398030336"
    by (simp add: round_half_even_def)
  finally show ?thesis by (simp add: long_to_double_def)
qed

lemma round_double_tie_result: "round_double 9007201398030336 = 9007201398030336"
  using round_double_exact[of 2251800349507584 2] by simp

lemma DEFAULT_FEE_RATE_value: "DEFAULT_FEE_RATE = 5534023222112865 / 2 ^ 65"
proof -
  have "round_double (15 / 100000)
      = of_int (round_half_even ((15 / 100000) / 2 powi (- 13 - 52))) * 2 powi (- 13 - 52)"
    by (rule round_double_at) simp_all
  also have "\<dots> = 5534023222112865 / 2 ^ 65"
    by (simp add: round_half_even_def power_int_minus_divide)
  finally show ?thesis by (simp add: DEFAULT_FEE_RATE_def)
qed

lemma DEFAULT_DCA_BUY_RATIO_value: "DEFAULT_DCA_BUY_RATIO = 1 / 4"
  by (simp add: DEFAULT_DCA_BUY_RATIO_def)


lemma fee_per_share_70000: "dmul (int_to_double 70000) DEFAULT_FEE_RATE = 5910974510923775 / 2 ^ 49"
proof -
  have "round_double (70000 * (5534023222112865 / 2 ^ 65))
      = of_int (round_half_even ((70000 * (5534023222112865 / 2 ^ 65)) / 2 powi (3 - 52)))
        * 2 powi (3 - 52)"
    by (rule round_double_at) simp_all
  also have "\<dots> = 5910974510923775 / 2 ^ 49"
    by (simp add: round_half_even_def power_int_minus_divide)
  finally show ?thesis by (simp add: dmul_def int_to_double_def DEFAULT_FEE_RATE_value)
qed

lemma per_share_70000: "per_share 70000 DEFAULT_FEE_RATE = Some 70010"
  by (simp add: per_share_def fee_per_share_70000 double_to_int_def trunc_zero_def chk_int_def
      INT_MIN_def INT_MAX_def)

subsection \<open>Integer helpers\<close>

lemma c_div_nonneg: "0 \<le> a \<Longrightarrow> 0 < b \<Longrightarrow> c_div a b = a div b"
  by (simp add: c_div_def)

lemma narrow_int_id: "INT_MIN \<le> x \<Longrightarrow> x \<le> INT_MAX \<Longrightarrow> narrow_int x = x"
  unfolding narrow_int_def INT_MIN_def INT_MAX_def
  by (intro signed_take_bit_int_eq_self) simp_all

lemma chk_int_Some: "chk_int x = Some y \<longleftrightarrow> y = x \<and> INT_MIN \<le> x \<and> x \<le> INT_MAX"
  by (auto simp: chk_int_def)

lemma chk_long_Some: "chk_long x = Some y \<longleftrightarrow> y = x \<and> LONG_MIN \<le> x \<and> x \<le> LONG_MAX"
  by (auto simp: chk_long_def)

lemma weighted_average_le:
  fixes a p n q m :: int
  assumes "a \<le> m" "p \<le> m" "0 \<le> n" "0 < q"
  shows "(a * n + p * q) div (n + q) \<le> m"
proof -
  have "a * n \<le> m * n" using assms by (intro mult_right_mono) simp_all
  moreover have "p * q \<le> m * q" using assms by (intro mult_right_mono) simp_all
  ultimately have "a * n + p * q \<le> m * (n + q)" by (simp add: algebra_simps)
  then have "(a * n + p * q) div (n + q) \<le> (m * (n + q)) div (n + q)"
    using assms by (intro zdiv_mono1) simp_all
  then show ?thesis using assms by simp
qed

lemma weighted_average_nonneg:
  fixes a p n q :: int
  assumes "0 \<le> a" "0 \<le> p" "0 \<le> n" "0 < q"
  shows "0 \<le> (a * n + p * q) div (n + q)"
  using assms by (intro pos_imp_zdiv_nonneg_iff[THEN iffD2]) simp_all

section \<open>The ledger operations\<close>

lemmas eval_simps =
  per_share_def buy_def sellAll_def recordEquity_def getTotalValue_def long_div_def c_div_def
  narrow_int_id chk_int_def chk_long_def INT_MIN_def INT_MAX_def LONG_MIN_def LONG_MAX_def
  dmul_def ddiv_def int_to_double_def long_to_double_def double_to_long_def double_to_int_def
  trunc_zero_def round_double_numeral Let_def


lemma buy_example:
  "buy 100 10 0 (mk_ledger 1000 0 0) = Some ((mk_ledger 0 10 100)\<lparr>buyCount := 1\<rparr>)"
  by (simp add: mk_ledger_def eval_simps)

lemma sellAll_example:
  "sellAll 90 0 (mk_ledger 0 10 100) = Some ((mk_ledger 900 0 0)\<lparr>sellCount := 1\<rparr>)"
  by (simp add: mk_ledger_def eval_simps)

lemma mk_ledger_simps [simp]:
  "cash (mk_ledger c n a) = c" "shares (mk_ledger c n a) = n" "avgPrice (mk_ledger c n a) = a"
  "ledger_inv (mk_ledger c n a) \<longleftrightarrow> 0 \<le> c \<and> 0 \<le> n \<and> 0 \<le> a \<and> a \<le> INT_MAX"
  by (simp_all add: mk_ledger_def ledger_inv_def)

lemma new_PanicSellStrategy_simps [simp]:
  "cash (new_PanicSellStrategy c t f) = c" "shares (new_PanicSellStrategy c t f) = 0"
  "avgPrice (new_PanicSellStrategy c t f) = 0"
  "PanicSellStrategy.feeRate (new_PanicSellStrategy c t f) = f"
  by (simp_all add: new_PanicSellStrategy_def)

lemma buy_Some:
  assumes "buy price qty fee_rate s = Some s'"
  shows "(let cost = price * qty; fee = trunc_zero (dmul (long_to_double cost) fee_rate) in
          if 0 < qty \<and> cost + fee \<le> cash s
          then INT_MIN \<le> shares s + qty \<and> shares s + qty \<le> INT_MAX \<and>
               s' = s\<lparr>shares := shares s + qty,
                 avgPrice := (if 0 < shares s + qty
                    then narrow_int (c_div (avgPrice s * shares s + cost) (shares s + qty))
                    else 0),
                 cash := cash s - (cost + fee),
                 buyCount := buyCount s + 1\<rparr>
          else s' = s)"
  using assms unfolding buy_def Let_def double_to_long_def
  by (simp add: bind_eq_Some_conv chk_long_Some chk_int_Some split: if_splits; linarith)

lemma sellAll_Some:
  assumes "sellAll price fee_rate s = Some s'"
  shows "(let revenue = price * shares s;
              fee = trunc_zero (dmul (long_to_double revenue) fee_rate) in
          if 0 < shares s
          then s' = s\<lparr>cash := cash s + (revenue - fee), shares := 0, avgPrice := 0,
                      sellCount := sellCount s + 1\<rparr>
          else s' = s)"
  using assms unfolding sellAll_def Let_def double_to_long_def
  by (simp add: bind_eq_Some_conv chk_long_Some chk_int_Some split: if_splits)

lemma average_after_buy:
  assumes "0 \<le> n" "0 \<le> a" "a \<le> INT_MAX" "0 \<le> p" "p \<le> INT_MAX" "0 < q"
  shows "narrow_int (c_div (a * n + p * q) (n + q)) = (a * n + p * q) div (n + q)"
proof -
  have t: "0 \<le> a * n + p * q" using assms by simp
  have "0 \<le> (a * n + p * q) div (n + q)"
    using assms by (intro weighted_average_nonneg) simp_all
  moreover have "(a * n + p * q) div (n + q) \<le> INT_MAX"
    using assms by (intro weighted_average_le) simp_all
  ultimately have "narrow_int ((a * n + p * q) div (n + q)) = (a * n + p * q) div (n + q)"
    by (intro narrow_int_id) (simp_all add: INT_MIN_def)
  then show ?thesis using t assms by (simp add: c_div_nonneg)
qed

lemma round_double_pow62: "round_double 4611686018427387904 = 4611686018427387904"
  using round_double_exact[of 1 62] by simp

lemma fee_amount_bounds:
  assumes "0 \<le> n" "n \<le> 2 ^ 62" "0 \<le> fee" "fee \<le> 1"
  shows "0 \<le> trunc_zero (dmul (long_to_double n) fee)"
    and "trunc_zero (dmul (long_to_double n) fee) \<le> 2 ^ 62"
proof -
  let ?x = "dmul (long_to_double n) fee"
  have n0: "0 \<le> long_to_double n"
    unfolding long_to_double_def using assms(1) by (intro round_double_nonneg) simp
  have "real_of_int n \<le> 2 ^ 62" using assms(2) by (metis of_int_le_iff of_int_numeral of_int_power)
  then have "round_double (of_int n) \<le> round_double (2 ^ 62)" by (rule round_double_mono)
  then have n1: "long_to_double n \<le> 2 ^ 62" by (simp add: long_to_double_def round_double_pow62)
  have "0 \<le> long_to_double n * fee" using n0 assms(3) by simp
  then have lo: "0 \<le> ?x" unfolding dmul_def by (rule round_double_nonneg)
  have "long_to_double n * fee \<le> long_to_double n" using n0 assms(3,4) by (simp add: mult_left_le)
  then have "long_to_double n * fee \<le> 2 ^ 62" using n1 by linarith
  then have "round_double (long_to_double n * fee) \<le> round_double (2 ^ 62)"
    by (rule round_double_mono)
  then have hi: "?x \<le> 2 ^ 62" by (simp add: dmul_def round_double_pow62)
  show "0 \<le> trunc_zero ?x" using lo by (simp add: trunc_zero_nonneg)
  have "\<lfloor>?x\<rfloor> \<le> 2 ^ 62" using hi by (simp add: floor_le_iff)
  then show "trunc_zero ?x \<le> 2 ^ 62" using lo by (simp add: trunc_zero_nonneg)
qed

text \<open>
  The operations are defined on the data model's range: with non-negative \<^verbatim>\<open>int\<close> prices
  and quantities, a fee rate in \<open>[0, 1]\<close> and counters and share totals that stay in
  \<^verbatim>\<open>int\<close>, neither \<open>buy\<close> nor \<open>sellAll\<close> leaves the range of its types.
\<close>

lemma buy_defined:
  assumes "0 \<le> price" "price \<le> INT_MAX" "0 \<le> qty" "qty \<le> INT_MAX"
    and "0 \<le> fee" "fee \<le> 1"
    and "ledger_inv s" "cash s \<le> LONG_MAX" "shares s \<le> INT_MAX"
    and "shares s + qty \<le> INT_MAX" "0 \<le> buyCount s" "buyCount s < INT_MAX"
  shows "\<exists>s'. buy price qty fee s = Some s'"
proof -
  let ?c = "price * qty"
  let ?f = "trunc_zero (dmul (long_to_double ?c) fee)"
  have c0: "0 \<le> ?c" using assms(1,3) by simp
  have "?c \<le> INT_MAX * INT_MAX" using assms(1-4) by (intro mult_mono) simp_all
  then have c1: "?c \<le> 4611686014132420609" by (simp add: INT_MAX_def)
  then have c2: "?c \<le> 2 ^ 62" by simp
  note f = fee_amount_bounds[OF c0 c2 assms(5,6)]
  have i: "0 \<le> cash s" "0 \<le> shares s" "0 \<le> avgPrice s" "avgPrice s \<le> INT_MAX"
    using assms(7) by (simp_all add: ledger_inv_def)
  have "avgPrice s * shares s \<le> INT_MAX * INT_MAX"
    using i assms(9) by (intro mult_mono) simp_all
  then have t1: "avgPrice s * shares s \<le> 4611686014132420609" by (simp add: INT_MAX_def)
  have t0: "0 \<le> avgPrice s * shares s" using i by simp
  show ?thesis
    using c0 c1 f i t0 t1 assms(8,10,11,12)
    by (simp add: buy_def Let_def double_to_long_def chk_long_def chk_int_def LONG_MIN_def
        LONG_MAX_def INT_MIN_def INT_MAX_def; linarith)
qed

lemma sellAll_defined:
  assumes "0 \<le> price" "price \<le> INT_MAX" "0 \<le> fee" "fee \<le> 1"
    and "ledger_inv s" "shares s \<le> INT_MAX" "cash s + price * shares s \<le> LONG_MAX"
    and "0 \<le> sellCount s" "sellCount s < INT_MAX"
  shows "\<exists>s'. sellAll price fee s = Some s'"
proof -
  let ?r = "price * shares s"
  let ?f = "trunc_zero (dmul (long_to_double ?r) fee)"
  have i: "0 \<le> cash s" "0 \<le> shares s" using assms(5) by (simp_all add: ledger_inv_def)
  have r0: "0 \<le> ?r" using assms(1) i by simp
  have "?r \<le> INT_MAX * INT_MAX" using assms(1,2,6) i by (intro mult_mono) simp_all
  then have r1: "?r \<le> 4611686014132420609" by (simp add: INT_MAX_def)
  then have r2: "?r \<le> 2 ^ 62" by simp
  note f = fee_amount_bounds[OF r0 r2 assms(3,4)]
  show ?thesis
    using r0 r1 f i assms(7,8,9)
    by (simp add: sellAll_def Let_def double_to_long_def chk_long_def chk_int_def LONG_MIN_def
        LONG_MAX_def INT_MIN_def INT_MAX_def; linarith)
qed

text \<open>
  C1 (as amended). A call \<open>buy price qty fee_rate\<close> on a ledger with non-negative shares
  and average price, at a non-negative price (both within \<^verbatim>\<open>int\<close>), leaves the state
  unchanged when
  \<open>qty \<le> 0\<close> or \<open>cash < cost + fee\<close>, where \<open>cost = price * qty\<close> and \<open>fee\<close> is the
  double-precision product \<open>cost * fee_rate\<close> truncated toward zero. Otherwise cash
  decreases by exactly \<open>cost + fee\<close>, the average price becomes
  \<open>(avgPrice * shares + cost) div (shares + qty)\<close>, shares grow by \<open>qty\<close>, the buy counter
  grows by one, and nothing else changes.
\<close>

theorem buy_effect:
  assumes "buy price qty fee_rate s = Some s'"
    and "0 \<le> shares s" "0 \<le> avgPrice s" "avgPrice s \<le> INT_MAX"
    and "0 \<le> price" "price \<le> INT_MAX"
  shows "(let cost = price * qty; fee = trunc_zero (dmul (long_to_double cost) fee_rate) in
          if qty \<le> 0 \<or> cash s < cost + fee then s' = s
          else s' = s\<lparr>cash := cash s - (cost + fee),
                      avgPrice := (avgPrice s * shares s + cost) div (shares s + qty),
                      shares := shares s + qty,
                      buyCount := buyCount s + 1\<rparr>)"
proof (cases "0 < qty \<and> price * qty
    + trunc_zero (dmul (long_to_double (price * qty)) fee_rate) \<le> cash s")
  case True
  then have q: "0 < qty" by simp
  have "0 < shares s + qty" using q assms(2) by simp
  moreover have "narrow_int (c_div (avgPrice s * shares s + price * qty) (shares s + qty))
      = (avgPrice s * shares s + price * qty) div (shares s + qty)"
    using assms(2-6) q by (intro average_after_buy) simp_all
  ultimately show ?thesis
    using buy_Some[OF assms(1)] True by (simp add: Let_def)
next
  case False
  then show ?thesis
    using buy_Some[OF assms(1)] by (simp add: Let_def; linarith)
qed

theorem buy_effect_witness:
  "buy 100 10 0 (mk_ledger 1000 0 0) = Some ((mk_ledger 0 10 100)\<lparr>buyCount := 1\<rparr>)
   \<and> (let cost = 100 * 10; fee = trunc_zero (dmul (long_to_double cost) 0) in
        \<not> (10 \<le> (0::int) \<or> cash (mk_ledger 1000 0 0) < cost + fee)
        \<and> (mk_ledger 0 10 100)\<lparr>buyCount := 1\<rparr> =
          (mk_ledger 1000 0 0)\<lparr>cash := cash (mk_ledger 1000 0 0) - (cost + fee),
             avgPrice := (avgPrice (mk_ledger 1000 0 0) * shares (mk_ledger 1000 0 0) + cost)
                          div (shares (mk_ledger 1000 0 0) + 10),
             shares := shares (mk_ledger 1000 0 0) + 10,
             buyCount := buyCount (mk_ledger 1000 0 0) + 1\<rparr>)"
proof -
  have run: "buy 100 10 0 (mk_ledger 1000 0 0) = Some ((mk_ledger 0 10 100)\<lparr>buyCount := 1\<rparr>)"
    by (simp add: buy_def mk_ledger_def dmul_def double_to_long_def trunc_zero_def
        chk_long_def chk_int_def LONG_MIN_def LONG_MAX_def INT_MIN_def INT_MAX_def
        c_div_def narrow_int_def signed_take_bit_eq_take_bit_minus)
  have "0 \<le> shares (mk_ledger 1000 0 0)" "0 \<le> avgPrice (mk_ledger 1000 0 0)"
    "avgPrice (mk_ledger 1000 0 0) \<le> INT_MAX" "(0::int) \<le> 100" "100 \<le> INT_MAX"
    by (simp_all add: mk_ledger_def INT_MAX_def)
  from buy_effect[OF run this] run show ?thesis
    by (simp add: Let_def dmul_def trunc_zero_def mk_ledger_def)
qed

lemma default_fee_on_100: "trunc_zero (dmul (long_to_double 100) DEFAULT_FEE_RATE) = 0"
proof -
  let ?x = "dmul (long_to_double 100) DEFAULT_FEE_RATE"
  have x: "?x = round_double (100 * DEFAULT_FEE_RATE)"
    by (simp add: dmul_def long_to_double_def round_double_numeral)
  have "0 \<le> 100 * DEFAULT_FEE_RATE" by (simp add: DEFAULT_FEE_RATE_value)
  then have lo: "0 \<le> ?x" unfolding x by (rule round_double_nonneg)
  have "100 * DEFAULT_FEE_RATE \<le> 1 / 2" by (simp add: DEFAULT_FEE_RATE_value)
  then have "round_double (100 * DEFAULT_FEE_RATE) \<le> round_double (1 / 2)"
    by (rule round_double_mono)
  then have hi: "?x \<le> 1 / 2" unfolding x by simp
  have "\<lfloor>?x\<rfloor> = 0" using lo hi by (simp add: floor_eq_iff)
  then show ?thesis using lo by (simp add: trunc_zero_nonneg)
qed

text \<open>
  C1 as stated fails at the default fee rate: one share at price 100 costs 100 plus the fee
  \<open>(long)(100 * 0.00015) = 0\<close>; a ledger holding cash 100 has
  \<open>cash < price * qty * (1 + feeRate)\<close> and the purchase still goes through.
\<close>

theorem buy_guard_counterexample:
  "real_of_int (cash (mk_ledger 100 0 0)) < 100 * 1 * (1 + DEFAULT_FEE_RATE)
   \<and> buy 100 1 DEFAULT_FEE_RATE (mk_ledger 100 0 0)
       = Some ((mk_ledger 0 1 100)\<lparr>buyCount := 1\<rparr>)"
proof
  show "real_of_int (cash (mk_ledger 100 0 0)) < 100 * 1 * (1 + DEFAULT_FEE_RATE)"
    by (simp add: DEFAULT_FEE_RATE_value)
  show "buy 100 1 DEFAULT_FEE_RATE (mk_ledger 100 0 0)
       = Some ((mk_ledger 0 1 100)\<lparr>buyCount := 1\<rparr>)"
    by (simp add: buy_def double_to_long_def default_fee_on_100 mk_ledger_def chk_long_def
        chk_int_def LONG_MIN_def LONG_MAX_def INT_MIN_def INT_MAX_def c_div_def narrow_int_id)
qed

text \<open>
  C2 (as amended). After a buy that changed the ledger (non-negative shares, average price
  and price), the stored average price is the truncated quotient of the total cost basis by
  the new share count: \<open>shares' * avgPrice'\<close> is at most
  \<open>shares * avgPrice + price * qty\<close> and falls short of it by less than \<open>shares'\<close>.
\<close>

theorem buy_cost_basis:
  assumes "buy price qty fee_rate s = Some s'" "s' \<noteq> s"
    and "0 \<le> shares s" "0 \<le> avgPrice s" "avgPrice s \<le> INT_MAX"
    and "0 \<le> price" "price \<le> INT_MAX"
  shows "avgPrice s' = (shares s * avgPrice s + price * qty) div shares s'
       \<and> shares s' * avgPrice s' \<le> shares s * avgPrice s + price * qty
       \<and> shares s * avgPrice s + price * qty < shares s' * avgPrice s' + shares s'"
proof -
  let ?t = "shares s * avgPrice s + price * qty"
  let ?n = "shares s + qty"
  have ok: "0 < qty \<and> price * qty
      + trunc_zero (dmul (long_to_double (price * qty)) fee_rate) \<le> cash s"
    using buy_Some[OF assms(1)] assms(2) by (simp add: Let_def split: if_splits)
  then have n: "0 < ?n" using assms(3) by simp
  have "narrow_int (c_div (avgPrice s * shares s + price * qty) ?n)
      = (avgPrice s * shares s + price * qty) div ?n"
    using assms(3-7) ok by (intro average_after_buy) simp_all
  then have s': "shares s' = ?n" "avgPrice s' = ?t div ?n"
    using buy_Some[OF assms(1)] ok n by (simp_all add: Let_def mult.commute)
  have "?t = ?n * (?t div ?n) + ?t mod ?n" by simp
  moreover have "0 \<le> ?t mod ?n" "?t mod ?n < ?n" using n by simp_all
  ultimately have "?n * (?t div ?n) \<le> ?t" "?t < ?n * (?t div ?n) + ?n" by linarith+
  then show ?thesis unfolding s' by simp
qed

theorem buy_cost_basis_witness:
  "buy 11 1 0 (mk_ledger 100 1 10) = Some ((mk_ledger 89 2 10)\<lparr>buyCount := 1\<rparr>)
   \<and> avgPrice ((mk_ledger 89 2 10)\<lparr>buyCount := 1\<rparr>) = (1 * 10 + 11 * 1) div 2
   \<and> 2 * 10 \<le> (1 * 10 + 11 * 1 :: int) \<and> (1 * 10 + 11 * 1 :: int) < 2 * 10 + 2"
proof -
  have run: "buy 11 1 0 (mk_ledger 100 1 10) = Some ((mk_ledger 89 2 10)\<lparr>buyCount := 1\<rparr>)"
    by (simp add: buy_def mk_ledger_def dmul_def double_to_long_def trunc_zero_def
        chk_long_def chk_int_def LONG_MIN_def LONG_MAX_def INT_MIN_def INT_MAX_def
        c_div_def narrow_int_def signed_take_bit_eq_take_bit_minus)
  have ne: "(mk_ledger 89 2 10)\<lparr>buyCount := 1\<rparr> \<noteq> mk_ledger 100 1 10"
    by (simp add: mk_ledger_def)
  have "0 \<le> shares (mk_ledger 100 1 10)" "0 \<le> avgPrice (mk_ledger 100 1 10)"
    "avgPrice (mk_ledger 100 1 10) \<le> INT_MAX" "(0::int) \<le> 11" "11 \<le> INT_MAX"
    by (simp_all add: mk_ledger_def INT_MAX_def)
  from buy_cost_basis[OF run ne this] run show ?thesis
    by (simp add: mk_ledger_def)
qed

text \<open>
  C2 as stated fails: one share held at average price 10, one more bought at 11, gives two
  shares at average price 10, and \<open>2 * 10\<close> is not \<open>1 * 10 + 11 * 1\<close>.
\<close>

theorem buy_cost_basis_counterexample:
  "buy 11 1 0 (mk_ledger 100 1 10) = Some ((mk_ledger 89 2 10)\<lparr>buyCount := 1\<rparr>)
   \<and> shares ((mk_ledger 89 2 10)\<lparr>buyCount := 1\<rparr>)
       * avgPrice ((mk_ledger 89 2 10)\<lparr>buyCount := 1\<rparr>)
     \<noteq> shares (mk_ledger 100 1 10) * avgPrice (mk_ledger 100 1 10) + 11 * 1"
  by (simp add: buy_def mk_ledger_def dmul_def double_to_long_def trunc_zero_def
      chk_long_def chk_int_def LONG_MIN_def LONG_MAX_def INT_MIN_def INT_MAX_def
      c_div_def narrow_int_def signed_take_bit_eq_take_bit_minus)

text \<open>
  C3 (as amended). \<open>sellAll price fee_rate\<close> on a ledger with \<open>shares > 0\<close> sets shares and
  average price to 0, adds exactly \<open>revenue - fee\<close> to cash, where
  \<open>revenue = price * shares\<close> and \<open>fee\<close> is the double-precision product
  \<open>revenue * fee_rate\<close> truncated toward zero, and increments the sell counter by one;
  with no shares it changes nothing.
\<close>

theorem sellAll_effect:
  assumes "sellAll price fee_rate s = Some s'"
  shows "(let revenue = price * shares s;
              fee = trunc_zero (dmul (long_to_double revenue) fee_rate) in
          if 0 < shares s
          then s' = s\<lparr>cash := cash s + (revenue - fee), shares := 0, avgPrice := 0,
                      sellCount := sellCount s + 1\<rparr>
          else s' = s)"
  using sellAll_Some[OF assms] .

theorem sellAll_effect_witness:
  "sellAll 90 0 (mk_ledger 0 10 100) = Some ((mk_ledger 900 0 0)\<lparr>sellCount := 1\<rparr>)
   \<and> (let revenue = 90 * shares (mk_ledger 0 10 100);
           fee = trunc_zero (dmul (long_to_double revenue) 0) in
        0 < shares (mk_ledger 0 10 100)
        \<and> (mk_ledger 900 0 0)\<lparr>sellCount := 1\<rparr> =
          (mk_ledger 0 10 100)\<lparr>cash := cash (mk_ledger 0 10 100) + (revenue - fee),
             shares := 0, avgPrice := 0,
             sellCount := sellCount (mk_ledger 0 10 100) + 1\<rparr>)"
proof -
  have run: "sellAll 90 0 (mk_ledger 0 10 100) = Some ((mk_ledger 900 0 0)\<lparr>sellCount := 1\<rparr>)"
    by (simp add: sellAll_def mk_ledger_def dmul_def double_to_long_def trunc_zero_def
        chk_long_def chk_int_def LONG_MIN_def LONG_MAX_def INT_MIN_def INT_MAX_def)
  from sellAll_effect[OF run] run show ?thesis
    by (simp add: Let_def dmul_def trunc_zero_def mk_ledger_def)
qed

text \<open>
  C3 as stated fails: the revenue is converted to \<^verbatim>\<open>double\<close> before it is multiplied by
  the fee rate. For 2147483647 shares sold at 4194305 with fee rate 1.0 the revenue
  9007201398030335 rounds to 9007201398030336, so the fee is one more than
  \<open>floor(price * shares * feeRate)\<close> and cash changes by \<open>- 1\<close> instead of 0.
\<close>

theorem sellAll_fee_counterexample:
  "sellAll 4194305 1 (mk_ledger 0 2147483647 5000000)
     = Some ((mk_ledger (- 1) 0 0)\<lparr>sellCount := 1\<rparr>)
   \<and> cash (mk_ledger 0 2147483647 5000000)
       + (4194305 * shares (mk_ledger 0 2147483647 5000000)
          - \<lfloor>real_of_int (4194305 * shares (mk_ledger 0 2147483647 5000000)) * 1\<rfloor>) = 0"
  by (simp add: sellAll_def mk_ledger_def dmul_def double_to_long_def long_to_double_tie
      round_double_tie_result trunc_zero_def chk_long_def chk_int_def LONG_MIN_def
      LONG_MAX_def INT_MIN_def INT_MAX_def)

section \<open>Strategies and the engine\<close>

lemma recordEquity_Some:
  "recordEquity price s = Some s' \<longleftrightarrow>
     LONG_MIN \<le> cash s + shares s * price \<and> cash s + shares s * price \<le> LONG_MAX \<and>
     s' = s\<lparr>equityHistory := equityHistory s @ [cash s + shares s * price]\<rparr>"
  by (auto simp: recordEquity_def getTotalValue_def chk_long_def)

lemma buy_history:
  "buy price qty fee_rate s = Some s' \<Longrightarrow> equityHistory s' = equityHistory s"
  by (drule buy_Some) (simp add: Let_def split: if_splits)

lemma sellAll_history:
  "sellAll price fee_rate s = Some s' \<Longrightarrow> equityHistory s' = equityHistory s"
  by (drule sellAll_Some) (simp add: Let_def split: if_splits)

lemma PanicSell_onPrice_history:
  assumes "PanicSell_onPrice idx price s = Some s'"
  shows "equityHistory s' = equityHistory s @ [cash s' + shares s' * price]"
  using assms unfolding PanicSell_onPrice_def Let_def
  by (auto simp: recordEquity_Some split: Option.bind_splits if_splits
      dest: buy_history sellAll_history)

lemma DCA_onPrice_history:
  assumes "DCA_onPrice idx price s = Some s'"
  shows "equityHistory s' = equityHistory s @ [cash s' + shares s' * price]"
  using assms unfolding DCA_onPrice_def Let_def
  by (auto simp: recordEquity_Some split: Option.bind_splits if_splits
      dest: buy_history sellAll_history)

lemma Hold_onPrice_history:
  assumes "Hold_onPrice idx price s = Some s'"
  shows "equityHistory s' = equityHistory s @ [cash s' + shares s' * price]"
  using assms unfolding Hold_onPrice_def Let_def
  by (auto simp: recordEquity_Some split: Option.bind_splits if_splits
      dest: buy_history sellAll_history)

lemma truncate_simps [simp]:
  "cash (TradingStrategy.truncate s) = cash s"
  "shares (TradingStrategy.truncate s) = shares s"
  "avgPrice (TradingStrategy.truncate s) = avgPrice s"
  "equityHistory (TradingStrategy.truncate s) = equityHistory s"
  "buyCount (TradingStrategy.truncate s) = buyCount s"
  "sellCount (TradingStrategy.truncate s) = sellCount s"
  by (simp_all add: TradingStrategy.truncate_def)

lemma onPrice_history:
  assumes "onPrice i p s = Some s'"
  shows "equityHistory (ledger s')
     = equityHistory (ledger s) @ [cash (ledger s') + shares (ledger s') * p]"
  using assms
  by (cases s) (auto dest: PanicSell_onPrice_history DCA_onPrice_history Hold_onPrice_history)

lemma tick_strategies_Some:
  "tick_strategies i p ss = Some ss' \<Longrightarrow> list_all2 (\<lambda>s s'. onPrice i p s = Some s') ss ss'"
  by (induction ss arbitrary: ss') (auto split: Option.bind_splits)

lemma replay_length: "replay ps i s = Some trace \<Longrightarrow> length trace = length ps"
  by (induction ps arbitrary: i s trace) (auto split: Option.bind_splits)

lemma replay_history:
  "replay ps i s = Some trace \<Longrightarrow>
     equityHistory (ledger (last (s # trace)))
       = equityHistory (ledger s)
         @ map2 (\<lambda>t p. cash (ledger t) + shares (ledger t) * p) trace ps"
proof (induction ps arbitrary: i s trace)
  case Nil
  then show ?case by simp
next
  case (Cons p ps)
  from Cons.prems obtain s1 rest where
    s1: "onPrice i p s = Some s1" and rest: "replay ps (Suc i) s1 = Some rest"
    and tr: "trace = s1 # rest"
    by (auto split: Option.bind_splits)
  show ?case
    using Cons.IH[OF rest] onPrice_history[OF s1] by (simp add: tr)
qed

lemma run_loop_step:
  "i < length prices \<Longrightarrow>
     run_loop prices ss prev i = do {
       _ \<leftarrow> (if i = 0 then Some 0 else chk_int (prices ! i - prev));
       ss1 \<leftarrow> tick_strategies i (prices ! i) ss;
       run_loop prices ss1 (prices ! i) (Suc i)
     }"
  by (subst run_loop.simps) (simp add: getPriceAt_def Let_def)

lemma run_loop_done: "\<not> i < length prices \<Longrightarrow> run_loop prices ss prev i = Some ss"
  by (subst run_loop.simps) simp

lemma run_loop_replay:
  "run_loop prices ss prev i = Some ss' \<Longrightarrow>
     list_all2 (\<lambda>s s'. \<exists>trace. replay (drop i prices) i s = Some trace \<and> s' = last (s # trace))
       ss ss'"
proof (induction "length prices - i" arbitrary: i ss prev)
  case 0
  then have "ss' = ss" by (simp add: run_loop_done)
  with 0 show ?case by (simp add: list_all2_same)
next
  case (Suc n)
  then have lt: "i < length prices" by simp
  let ?p = "prices ! i"
  from Suc.prems obtain ss1 where
    tick: "tick_strategies i ?p ss = Some ss1"
    and rest: "run_loop prices ss1 ?p (Suc i) = Some ss'"
    unfolding run_loop_step[OF lt] by (auto split: Option.bind_splits)
  have "n = length prices - Suc i" using Suc.hyps(2) by simp
  from Suc.hyps(1)[OF this rest]
  have ih: "list_all2 (\<lambda>s s'. \<exists>trace. replay (drop (Suc i) prices) (Suc i) s = Some trace
      \<and> s' = last (s # trace)) ss1 ss'" .
  have d: "drop i prices = ?p # drop (Suc i) prices"
    using lt by (simp add: Cons_nth_drop_Suc)
  have step: "list_all2 (\<lambda>s s'. onPrice i ?p s = Some s') ss ss1"
    using tick by (rule tick_strategies_Some)
  have l1: "length ss = length ss1" using step by (rule list_all2_lengthD)
  have l2: "length ss1 = length ss'" using ih by (rule list_all2_lengthD)
  show ?case
  proof (rule list_all2_all_nthI)
    show "length ss = length ss'" using l1 l2 by simp
  next
    fix k assume k: "k < length ss"
    have a: "onPrice i ?p (ss ! k) = Some (ss1 ! k)"
      using list_all2_nthD[OF step k] .
    have k1: "k < length ss1" using k l1 by simp
    from list_all2_nthD[OF ih k1] obtain tr where
      tr: "replay (drop (Suc i) prices) (Suc i) (ss1 ! k) = Some tr"
      and l: "ss' ! k = last (ss1 ! k # tr)" by blast
    have "replay (drop i prices) i (ss ! k) = Some (ss1 ! k # tr)"
      unfolding d using a tr by simp
    moreover have "ss' ! k = last (ss ! k # ss1 ! k # tr)" using l by simp
    ultimately show "\<exists>trace. replay (drop i prices) i (ss ! k) = Some trace
        \<and> ss' ! k = last (ss ! k # trace)" by blast
  qed
qed

lemma runBattle_replay:
  assumes "runBattle prices ss = Some ss'"
  shows "list_all2 (\<lambda>s s'. \<exists>trace. replay prices 0 s = Some trace \<and> s' = last (s # trace)) ss ss'"
proof (cases "prices = []")
  case True
  with assms show ?thesis by (simp add: runBattle_def list_all2_same)
next
  case False
  with assms have "run_loop prices ss (getPriceAt prices 0) 0 = Some ss'"
    by (simp add: runBattle_def)
  from run_loop_replay[OF this] show ?thesis by simp
qed



lemma replay_summary:
  assumes "\<exists>trace. replay prices 0 s = Some trace \<and> s' = last (s # trace)"
  shows "\<exists>trace. replay prices 0 s = Some trace
            \<and> length trace = length prices
            \<and> s' = last (s # trace)
            \<and> equityHistory (ledger s') = equityHistory (ledger s)
                 @ map2 (\<lambda>t p. cash (ledger t) + shares (ledger t) * p) trace prices
            \<and> length (equityHistory (ledger s'))
                 = length (equityHistory (ledger s)) + length prices"
proof -
  from assms obtain trace where tr: "replay prices 0 s = Some trace" "s' = last (s # trace)"
    by blast
  note len = replay_length[OF tr(1)]
  note h = replay_history[OF tr(1)]
  have "length (equityHistory (ledger s')) = length (equityHistory (ledger s)) + length prices"
    unfolding tr(2) h using len by simp
  with tr len h show ?thesis by blast
qed

subsection \<open>A worked run\<close>

lemma panic_tick0:
  "PanicSell_onPrice idx 100 (new_PanicSellStrategy 1000 (DEFAULT_PANIC_THRESHOLD) 0)
    = Some \<lparr>cash = 0, shares = 10, avgPrice = 100, equityHistory = [1000], buyCount = 1,
        sellCount = 0, stopLossRate = DEFAULT_PANIC_THRESHOLD, feeRate = 0, hasBought = True\<rparr>"
  by (simp add: PanicSell_onPrice_def new_PanicSellStrategy_def eval_simps)

lemma panic_tick1:
  "PanicSell_onPrice idx 90 \<lparr>cash = 0, shares = 10, avgPrice = 100, equityHistory = [1000], buyCount = 1,
        sellCount = 0, stopLossRate = DEFAULT_PANIC_THRESHOLD, feeRate = 0, hasBought = True\<rparr>
    = Some \<lparr>cash = 900, shares = 0, avgPrice = 0, equityHistory = [1000, 900], buyCount = 1,
        sellCount = 1, stopLossRate = DEFAULT_PANIC_THRESHOLD, feeRate = 0, hasBought = True\<rparr>"
  by (simp add: PanicSell_onPrice_def eval_simps DEFAULT_PANIC_THRESHOLD_def)

lemma panic_tick2:
  "PanicSell_onPrice idx 81 \<lparr>cash = 900, shares = 0, avgPrice = 0, equityHistory = [1000, 900], buyCount = 1,
        sellCount = 1, stopLossRate = DEFAULT_PANIC_THRESHOLD, feeRate = 0, hasBought = True\<rparr>
    = Some \<lparr>cash = 900, shares = 0, avgPrice = 0, equityHistory = [1000, 900, 900], buyCount = 1,
        sellCount = 1, stopLossRate = DEFAULT_PANIC_THRESHOLD, feeRate = 0, hasBought = True\<rparr>"
  by (simp add: PanicSell_onPrice_def eval_simps)

lemma drop_ten_percent: "round_double (- (1 / 10)) \<le> DEFAULT_DCA_DROP_RATE"
  unfolding DEFAULT_DCA_DROP_RATE_def by (rule round_double_mono) simp

lemma hold_tick0:
  "Hold_onPrice idx 100 (new_HoldStrategy 1000 (1 / 2) 0)
    = Some \<lparr>cash = 500, shares = 5, avgPrice = 100, equityHistory = [1000], buyCount = 1,
        sellCount = 0, initialBuyRatio = 1 / 2, feeRate = 0, hasBought = True\<rparr>"
  by (simp add: Hold_onPrice_def new_HoldStrategy_def eval_simps)

lemma hold_tick1:
  "Hold_onPrice idx 90 \<lparr>cash = 500, shares = 5, avgPrice = 100, equityHistory = [1000],
        buyCount = 1, sellCount = 0, initialBuyRatio = 1 / 2, feeRate = 0, hasBought = True\<rparr>
    = Some \<lparr>cash = 500, shares = 5, avgPrice = 100, equityHistory = [1000, 950], buyCount = 1,
        sellCount = 0, initialBuyRatio = 1 / 2, feeRate = 0, hasBought = True\<rparr>"
  by (simp add: Hold_onPrice_def eval_simps)

lemma hold_tick2:
  "Hold_onPrice idx 81 \<lparr>cash = 500, shares = 5, avgPrice = 100, equityHistory = [1000, 950],
        buyCount = 1, sellCount = 0, initialBuyRatio = 1 / 2, feeRate = 0, hasBought = True\<rparr>
    = Some \<lparr>cash = 500, shares = 5, avgPrice = 100, equityHistory = [1000, 950, 905],
        buyCount = 1, sellCount = 0, initialBuyRatio = 1 / 2, feeRate = 0, hasBought = True\<rparr>"
  by (simp add: Hold_onPrice_def eval_simps)

lemma dca_tick0:
  "DCA_onPrice 0 100 (new_DCAStrategy 1000 DEFAULT_DCA_DROP_RATE 5 (1 / 4) 0)
    = Some \<lparr>cash = 800, shares = 2, avgPrice = 100, equityHistory = [1000], buyCount = 1,
        sellCount = 0, dcaDropRate = DEFAULT_DCA_DROP_RATE, dcaInterval = 5, buyRatio = 1 / 4,
        feeRate = 0, lastBuyIndex = 0, lastBuyPrice = 100\<rparr>"
  by (simp add: DCA_onPrice_def DCA_shouldBuy_def new_DCAStrategy_def eval_simps)

lemma dca_tick1:
  "DCA_onPrice (Suc 0) 90 \<lparr>cash = 800, shares = 2, avgPrice = 100, equityHistory = [1000],
        buyCount = 1, sellCount = 0, dcaDropRate = DEFAULT_DCA_DROP_RATE, dcaInterval = 5,
        buyRatio = 1 / 4, feeRate = 0, lastBuyIndex = 0, lastBuyPrice = 100\<rparr>
    = Some \<lparr>cash = 620, shares = 4, avgPrice = 95, equityHistory = [1000, 980], buyCount = 2,
        sellCount = 0, dcaDropRate = DEFAULT_DCA_DROP_RATE, dcaInterval = 5, buyRatio = 1 / 4,
        feeRate = 0, lastBuyIndex = 1, lastBuyPrice = 90\<rparr>"
  by (simp add: DCA_onPrice_def DCA_shouldBuy_def eval_simps drop_ten_percent)

lemma dca_tick2:
  "DCA_onPrice (Suc (Suc 0)) 81 \<lparr>cash = 620, shares = 4, avgPrice = 95,
        equityHistory = [1000, 980], buyCount = 2, sellCount = 0,
        dcaDropRate = DEFAULT_DCA_DROP_RATE, dcaInterval = 5,
        buyRatio = 1 / 4, feeRate = 0, lastBuyIndex = 1, lastBuyPrice = 90\<rparr>
    = Some \<lparr>cash = 539, shares = 5, avgPrice = 92, equityHistory = [1000, 980, 944],
        buyCount = 3, sellCount = 0, dcaDropRate = DEFAULT_DCA_DROP_RATE, dcaInterval = 5,
        buyRatio = 1 / 4, feeRate = 0, lastBuyIndex = 2, lastBuyPrice = 81\<rparr>"
  by (simp add: DCA_onPrice_def DCA_shouldBuy_def eval_simps drop_ten_percent)


lemma scenario_run:
  "runBattle [100, 90, 81]
     [PanicSell (new_PanicSellStrategy 1000 DEFAULT_PANIC_THRESHOLD 0),
      DCA (new_DCAStrategy 1000 DEFAULT_DCA_DROP_RATE 5 (1 / 4) 0),
      Hold (new_HoldStrategy 1000 (1 / 2) 0)]
    = Some
     [PanicSell \<lparr>cash = 900, shares = 0, avgPrice = 0, equityHistory = [1000, 900, 900],
        buyCount = 1, sellCount = 1, stopLossRate = DEFAULT_PANIC_THRESHOLD, feeRate = 0,
        hasBought = True\<rparr>,
      DCA \<lparr>cash = 539, shares = 5, avgPrice = 92, equityHistory = [1000, 980, 944],
        buyCount = 3, sellCount = 0, dcaDropRate = DEFAULT_DCA_DROP_RATE, dcaInterval = 5,
        buyRatio = 1 / 4, feeRate = 0, lastBuyIndex = 2, lastBuyPrice = 81\<rparr>,
      Hold \<lparr>cash = 500, shares = 5, avgPrice = 100, equityHistory = [1000, 950, 905],
        buyCount = 1, sellCount = 0, initialBuyRatio = 1 / 2, feeRate = 0, hasBought = True\<rparr>]"
  by (simp add: runBattle_def run_loop_step run_loop_done panic_tick0 panic_tick1
      panic_tick2 dca_tick0 dca_tick1 dca_tick2 hold_tick0 hold_tick1 hold_tick2
      chk_int_def INT_MIN_def INT_MAX_def)

text \<open>
  C6. On the prices 100, 90, 81 with starting cash 1000, fee rate 0 and threshold
  \<open>-0.10\<close>, PanicSell buys 10 shares at the first tick (cash 0, average price 100); at
  the second tick the profit rate \<open>(90 - 100) / 100\<close> is exactly the threshold, which
  triggers, and everything is sold for 900. The third tick changes nothing.
\<close>

theorem panic_sell_scenario:
  "PanicSell_onPrice 0 100 (new_PanicSellStrategy 1000 DEFAULT_PANIC_THRESHOLD 0)
     = Some \<lparr>cash = 0, shares = 10, avgPrice = 100, equityHistory = [1000], buyCount = 1,
         sellCount = 0, stopLossRate = DEFAULT_PANIC_THRESHOLD, feeRate = 0, hasBought = True\<rparr>
   \<and> ddiv (int_to_double (90 - 100)) (int_to_double 100) = DEFAULT_PANIC_THRESHOLD
   \<and> PanicSell_onPrice 1 90
       \<lparr>cash = 0, shares = 10, avgPrice = 100, equityHistory = [1000], buyCount = 1,
         sellCount = 0, stopLossRate = DEFAULT_PANIC_THRESHOLD, feeRate = 0, hasBought = True\<rparr>
     = Some \<lparr>cash = 900, shares = 0, avgPrice = 0, equityHistory = [1000, 900], buyCount = 1,
         sellCount = 1, stopLossRate = DEFAULT_PANIC_THRESHOLD, feeRate = 0, hasBought = True\<rparr>
   \<and> PanicSell_onPrice 2 81
       \<lparr>cash = 900, shares = 0, avgPrice = 0, equityHistory = [1000, 900], buyCount = 1,
         sellCount = 1, stopLossRate = DEFAULT_PANIC_THRESHOLD, feeRate = 0, hasBought = True\<rparr>
     = Some \<lparr>cash = 900, shares = 0, avgPrice = 0, equityHistory = [1000, 900, 900],
         buyCount = 1, sellCount = 1, stopLossRate = DEFAULT_PANIC_THRESHOLD, feeRate = 0,
         hasBought = True\<rparr>"
  using panic_tick0[of 0] panic_tick1[of 1] panic_tick2[of 2]
  by (simp add: ddiv_def int_to_double_def DEFAULT_PANIC_THRESHOLD_def)

subsection \<open>PanicSell trades at most once\<close>

lemma panic_inv_new: "panic_inv (new_PanicSellStrategy c t f)"
  by (simp add: panic_inv_def new_PanicSellStrategy_def)

lemma PanicSell_onPrice_inv:
  assumes "PanicSell_onPrice idx price s = Some s'" "panic_inv s"
  shows "panic_inv s'"
    and "sellCount s = 1 \<Longrightarrow> buyCount s' = buyCount s \<and> shares s' = 0"
  using assms unfolding PanicSell_onPrice_def Let_def panic_inv_def
  by (auto simp: recordEquity_Some Let_def split: Option.bind_splits if_splits
      dest!: buy_Some sellAll_Some)



lemma onPrice_panic:
  assumes "onPrice i p s = Some s'" "is_panic s"
  shows "is_panic s'"
    and "sellCount (ledger s) = 1 \<Longrightarrow>
         buyCount (ledger s') = buyCount (ledger s) \<and> shares (ledger s') = 0"
  using assms by (cases s; auto dest: PanicSell_onPrice_inv)+

lemma is_panic_counts:
  "is_panic s \<Longrightarrow> 0 \<le> buyCount (ledger s) \<and> buyCount (ledger s) \<le> 1
     \<and> 0 \<le> sellCount (ledger s) \<and> sellCount (ledger s) \<le> 1"
  by (cases s) (auto simp: panic_inv_def)

lemma replay_panic:
  assumes "replay ps i s = Some trace" "is_panic s"
  shows "(\<forall>t \<in> set trace. is_panic t)
    \<and> (\<forall>j < length trace. sellCount (ledger ((s # trace) ! j)) = 1 \<longrightarrow>
          buyCount (ledger (trace ! j)) = buyCount (ledger ((s # trace) ! j))
          \<and> shares (ledger (trace ! j)) = 0)"
  using assms
proof (induction ps arbitrary: i s trace)
  case Nil
  then show ?case by simp
next
  case (Cons p ps)
  from Cons.prems(1) obtain s1 rest where
    s1: "onPrice i p s = Some s1" and rest: "replay ps (Suc i) s1 = Some rest"
    and tr: "trace = s1 # rest"
    by (auto split: Option.bind_splits)
  note p1 = onPrice_panic[OF s1 Cons.prems(2)]
  note ih = Cons.IH[OF rest p1(1)]
  show ?case
  proof (intro conjI ballI allI impI)
    fix t assume "t \<in> set trace"
    then show "is_panic t" using ih p1(1) by (auto simp: tr)
  next
    fix j assume j: "j < length trace"
      and sold: "sellCount (ledger ((s # trace) ! j)) = 1"
    show "buyCount (ledger (trace ! j)) = buyCount (ledger ((s # trace) ! j))"
    proof (cases j)
      case 0
      then show ?thesis using p1(2) sold by (simp add: tr)
    next
      case (Suc m)
      then show ?thesis using ih j sold by (simp add: tr)
    qed
    show "shares (ledger (trace ! j)) = 0"
    proof (cases j)
      case 0
      then show ?thesis using p1(2) sold by (simp add: tr)
    next
      case (Suc m)
      then show ?thesis using ih j sold by (simp add: tr)
    qed
  qed
qed

text \<open>
  C7. In every run of the engine, a PanicSell strategy created by its constructor has, after
  every tick, a buy counter and a sell counter of at most 1; and once it has sold
  (sell counter 1), the next tick leaves the buy counter unchanged and the shares at 0:
  it never buys again.
\<close>

theorem panic_sell_trades_once:
  assumes "runBattle prices strategies = Some strategies'"
    and "k < length strategies"
    and "strategies ! k = PanicSell (new_PanicSellStrategy initCash threshold fee)"
  shows "\<exists>trace. replay prices 0 (strategies ! k) = Some trace
      \<and> strategies' ! k = last (strategies ! k # trace)
      \<and> (\<forall>t \<in> set trace. buyCount (ledger t) \<le> 1 \<and> sellCount (ledger t) \<le> 1)
      \<and> (\<forall>j < length trace. sellCount (ledger ((strategies ! k # trace) ! j)) = 1 \<longrightarrow>
            buyCount (ledger (trace ! j)) = buyCount (ledger ((strategies ! k # trace) ! j))
            \<and> shares (ledger (trace ! j)) = 0)
      \<and> buyCount (ledger (strategies' ! k)) \<le> 1
      \<and> sellCount (ledger (strategies' ! k)) \<le> 1"
proof -
  let ?s = "strategies ! k"
  from list_all2_nthD[OF runBattle_replay[OF assms(1)] assms(2)] obtain trace where
    tr: "replay prices 0 ?s = Some trace" and l: "strategies' ! k = last (?s # trace)"
    by blast
  have p0: "is_panic ?s" by (simp add: assms(3) panic_inv_new)
  note rp = replay_panic[OF tr p0]
  have all: "\<forall>t \<in> set (?s # trace). is_panic t" using rp p0 by simp
  have "last (?s # trace) \<in> set (?s # trace)" by (rule last_in_set) simp
  then have "is_panic (strategies' ! k)" using all l by metis
  then have fin: "buyCount (ledger (strategies' ! k)) \<le> 1
      \<and> sellCount (ledger (strategies' ! k)) \<le> 1"
    using is_panic_counts by blast
  have cnt: "\<forall>t \<in> set trace. buyCount (ledger t) \<le> 1 \<and> sellCount (ledger t) \<le> 1"
    using rp is_panic_counts by blast
  show ?thesis using tr l cnt rp fin by blast
qed

theorem panic_sell_trades_once_witness:
  "buyCount (ledger (PanicSell \<lparr>cash = 900, shares = 0, avgPrice = 0,
        equityHistory = [1000, 900, 900], buyCount = 1, sellCount = 1,
        stopLossRate = DEFAULT_PANIC_THRESHOLD, feeRate = 0, hasBought = True\<rparr>)) \<le> 1
   \<and> sellCount (ledger (PanicSell \<lparr>cash = 900, shares = 0, avgPrice = 0,
        equityHistory = [1000, 900, 900], buyCount = 1, sellCount = 1,
        stopLossRate = DEFAULT_PANIC_THRESHOLD, feeRate = 0, hasBought = True\<rparr>)) \<le> 1"
  using panic_sell_trades_once[OF scenario_run, of 0 1000 DEFAULT_PANIC_THRESHOLD 0]
  by simp


subsection \<open>The DCA fallback at the default fee rate\<close>

text \<open>
  C5, evaluated where it fails. With the default parameters, cash 280000 and a first price of
  70000, the intended spend \<open>(long)(280000 * 0.25) = 70000\<close> is not below the price, so it
  is kept; a share costs \<open>70000 + (int)(70000 * 0.00015) = 70010\<close>, the quantity is 0 and
  nothing is bought, although the remaining cash would pay for 3 shares.
\<close>

theorem dca_fallback_ignores_fee:
  "double_to_long (dmul (long_to_double 280000) DEFAULT_DCA_BUY_RATIO) = Some 70000
   \<and> per_share 70000 DEFAULT_FEE_RATE = Some 70010
   \<and> long_div 70000 70010 = Some 0
   \<and> long_div 280000 70010 = Some 3
   \<and> DCA_onPrice 0 70000
        (new_DCAStrategy 280000 DEFAULT_DCA_DROP_RATE DEFAULT_DCA_INTERVAL
           DEFAULT_DCA_BUY_RATIO DEFAULT_FEE_RATE)
     = Some ((new_DCAStrategy 280000 DEFAULT_DCA_DROP_RATE DEFAULT_DCA_INTERVAL
           DEFAULT_DCA_BUY_RATIO DEFAULT_FEE_RATE)\<lparr>equityHistory := [280000]\<rparr>)"
  by (simp add: DCA_onPrice_def DCA_shouldBuy_def new_DCAStrategy_def per_share_70000
      DEFAULT_DCA_BUY_RATIO_value dmul_def long_to_double_def round_double_numeral
      double_to_long_def trunc_zero_def long_div_def c_div_def narrow_int_id chk_long_def
      LONG_MIN_def LONG_MAX_def INT_MIN_def INT_MAX_def recordEquity_def getTotalValue_def)

subsection \<open>The ledger invariant\<close>

lemma buy_inv:
  assumes "ledger_inv s" "0 \<le> price" "price \<le> INT_MAX" "buy price qty fee s = Some s'"
  shows "ledger_inv s'"
proof (cases "0 < qty \<and> price * qty
    + trunc_zero (dmul (long_to_double (price * qty)) fee) \<le> cash s")
  case False
  then have "s' = s" using buy_Some[OF assms(4)] by (simp add: Let_def; linarith)
  then show ?thesis using assms(1) by simp
next
  case True
  have i: "0 \<le> shares s" "0 \<le> avgPrice s" "avgPrice s \<le> INT_MAX" "0 \<le> cash s"
    using assms(1) by (simp_all add: ledger_inv_def)
  have n: "0 < shares s + qty" using True i by simp
  have avg: "narrow_int (c_div (avgPrice s * shares s + price * qty) (shares s + qty))
      = (avgPrice s * shares s + price * qty) div (shares s + qty)"
    using i assms(2,3) True by (intro average_after_buy) simp_all
  have lo: "0 \<le> (avgPrice s * shares s + price * qty) div (shares s + qty)"
    using i assms(2) True by (intro weighted_average_nonneg) simp_all
  have hi: "(avgPrice s * shares s + price * qty) div (shares s + qty) \<le> INT_MAX"
    using i assms(3) True by (intro weighted_average_le) simp_all
  show ?thesis
    using buy_Some[OF assms(4)] True n avg lo hi i
    by (simp add: Let_def ledger_inv_def)
qed

lemma sale_fee_le:
  assumes "0 \<le> r" "r < 2 ^ 53" "0 \<le> fee" "fee \<le> 1"
  shows "trunc_zero (dmul (long_to_double r) fee) \<le> r"
proof -
  have e: "long_to_double r = of_int r"
    using assms(1,2) by (intro long_to_double_exact) simp
  have "of_int r * fee \<le> real_of_int r"
    using assms by (simp add: mult_left_le)
  then have "round_double (of_int r * fee) \<le> round_double (of_int r)"
    by (rule round_double_mono)
  also have "\<dots> = of_int r"
    using assms(1,2) by (intro round_double_of_int) simp
  finally have le: "dmul (long_to_double r) fee \<le> of_int r"
    by (simp add: dmul_def e)
  have "0 \<le> of_int r * fee" using assms by simp
  then have "0 \<le> dmul (long_to_double r) fee"
    unfolding dmul_def e by (rule round_double_nonneg)
  then have "trunc_zero (dmul (long_to_double r) fee) = \<lfloor>dmul (long_to_double r) fee\<rfloor>"
    by (rule trunc_zero_nonneg)
  also have "\<dots> \<le> r" using le by (simp add: floor_le_iff)
  finally show ?thesis .
qed

lemma sellAll_inv:
  assumes "ledger_inv s" "0 \<le> price" "0 \<le> fee" "fee \<le> 1" "price * shares s < 2 ^ 53"
    "sellAll price fee s = Some s'"
  shows "ledger_inv s' \<and> cash s \<le> cash s'"
proof (cases "0 < shares s")
  case False
  then have "s' = s" using sellAll_Some[OF assms(6)] by (simp add: Let_def)
  then show ?thesis using assms(1) by simp
next
  case True
  have "0 \<le> price * shares s" using assms(2) True by simp
  from sale_fee_le[OF this assms(5,3,4)]
  have "trunc_zero (dmul (long_to_double (price * shares s)) fee) \<le> price * shares s" .
  then show ?thesis
    using sellAll_Some[OF assms(6)] True assms(1)
    by (simp add: Let_def ledger_inv_def INT_MAX_def)
qed

lemma recordEquity_inv:
  "recordEquity price s = Some s' \<Longrightarrow> ledger_inv s' = ledger_inv s"
  by (auto simp: recordEquity_Some ledger_inv_def)

lemma set_hasBought_inv [simp]:
  "ledger_inv (s\<lparr>PanicSellStrategy.hasBought := b\<rparr>) = ledger_inv s"
  "ledger_inv (h\<lparr>HoldStrategy.hasBought := b\<rparr>) = ledger_inv h"
  "ledger_inv (d\<lparr>lastBuyIndex := i, lastBuyPrice := p\<rparr>) = ledger_inv d"
  by (simp_all add: ledger_inv_def)

lemma PanicSell_onPrice_ledger_inv:
  assumes "ledger_inv s" "0 \<le> price" "price \<le> INT_MAX"
    "0 \<le> PanicSellStrategy.feeRate s" "PanicSellStrategy.feeRate s \<le> 1"
    "price * shares s < 2 ^ 53" "PanicSell_onPrice idx price s = Some s'"
  shows "ledger_inv s'"
  using assms(7) unfolding PanicSell_onPrice_def Let_def
  by (auto simp: recordEquity_inv split: Option.bind_splits if_splits
      dest: buy_inv[OF assms(1-3)] sellAll_inv[OF assms(1,2,4,5,6)] intro: assms(1))

lemma DCA_onPrice_ledger_inv:
  assumes "ledger_inv s" "0 \<le> price" "price \<le> INT_MAX" "DCA_onPrice idx price s = Some s'"
  shows "ledger_inv s'"
  using assms(4) unfolding DCA_onPrice_def Let_def
  by (auto simp: recordEquity_inv split: Option.bind_splits if_splits
      dest: buy_inv[OF assms(1-3)] intro: assms(1))

lemma Hold_onPrice_ledger_inv:
  assumes "ledger_inv s" "0 \<le> price" "price \<le> INT_MAX" "Hold_onPrice idx price s = Some s'"
  shows "ledger_inv s'"
  using assms(4) unfolding Hold_onPrice_def Let_def
  by (auto simp: recordEquity_inv split: Option.bind_splits if_splits
      dest: buy_inv[OF assms(1-3)] intro: assms(1))


lemma onPrice_ledger_inv:
  assumes "ledger_inv (ledger st)" "0 \<le> price" "price \<le> INT_MAX"
    "0 \<le> fee_rate_of st" "fee_rate_of st \<le> 1"
    "price * shares (ledger st) < 2 ^ 53" "onPrice idx price st = Some st'"
  shows "ledger_inv (ledger st')"
proof (cases st)
  case (PanicSell s)
  with assms obtain s' where s': "PanicSell_onPrice idx price s = Some s'" "st' = PanicSell s'"
    by auto
  have "ledger_inv s" using assms(1) PanicSell by (simp add: ledger_inv_def)
  from PanicSell_onPrice_ledger_inv[OF this assms(2,3) _ _ _ s'(1)] assms(4,5,6) PanicSell
  have "ledger_inv s'" by simp
  then show ?thesis by (simp add: s'(2) ledger_inv_def)
next
  case (DCA s)
  with assms obtain s' where s': "DCA_onPrice idx price s = Some s'" "st' = DCA s'"
    by auto
  have "ledger_inv s" using assms(1) DCA by (simp add: ledger_inv_def)
  from DCA_onPrice_ledger_inv[OF this assms(2,3) s'(1)]
  show ?thesis by (simp add: s'(2) ledger_inv_def)
next
  case (Hold s)
  with assms obtain s' where s': "Hold_onPrice idx price s = Some s'" "st' = Hold s'"
    by auto
  have "ledger_inv s" using assms(1) Hold by (simp add: ledger_inv_def)
  from Hold_onPrice_ledger_inv[OF this assms(2,3) s'(1)]
  show ?thesis by (simp add: s'(2) ledger_inv_def)
qed

lemma buy_PanicSell_feeRate:
  "buy price qty fee s = Some s' \<Longrightarrow> PanicSellStrategy.feeRate s' = PanicSellStrategy.feeRate s"
  by (drule buy_Some) (simp add: Let_def split: if_splits)

lemma sellAll_PanicSell_feeRate:
  "sellAll price fee s = Some s' \<Longrightarrow> PanicSellStrategy.feeRate s' = PanicSellStrategy.feeRate s"
  by (drule sellAll_Some) (simp add: Let_def split: if_splits)

lemma buy_DCA_feeRate:
  "buy price qty fee s = Some s' \<Longrightarrow> DCAStrategy.feeRate s' = DCAStrategy.feeRate s"
  by (drule buy_Some) (simp add: Let_def split: if_splits)

lemma buy_Hold_feeRate:
  "buy price qty fee s = Some s' \<Longrightarrow> HoldStrategy.feeRate s' = HoldStrategy.feeRate s"
  by (drule buy_Some) (simp add: Let_def split: if_splits)

lemma PanicSell_onPrice_feeRate:
  assumes "PanicSell_onPrice idx price s = Some s'"
  shows "PanicSellStrategy.feeRate s' = PanicSellStrategy.feeRate s"
  using assms unfolding PanicSell_onPrice_def Let_def
  by (auto simp: recordEquity_Some split: Option.bind_splits if_splits
      dest: buy_PanicSell_feeRate sellAll_PanicSell_feeRate)

lemma DCA_onPrice_feeRate:
  assumes "DCA_onPrice idx price s = Some s'"
  shows "DCAStrategy.feeRate s' = DCAStrategy.feeRate s"
  using assms unfolding DCA_onPrice_def Let_def
  by (auto simp: recordEquity_Some split: Option.bind_splits if_splits dest: buy_DCA_feeRate)

lemma Hold_onPrice_feeRate:
  assumes "Hold_onPrice idx price s = Some s'"
  shows "HoldStrategy.feeRate s' = HoldStrategy.feeRate s"
  using assms unfolding Hold_onPrice_def Let_def
  by (auto simp: recordEquity_Some split: Option.bind_splits if_splits dest: buy_Hold_feeRate)

lemma onPrice_fee_rate:
  assumes "onPrice idx price st = Some st'"
  shows "fee_rate_of st' = fee_rate_of st"
  using assms
  by (cases st)
     (auto dest: PanicSell_onPrice_feeRate DCA_onPrice_feeRate Hold_onPrice_feeRate)

lemma replay_ledger_inv:
  assumes "replay ps i st = Some trace" "ledger_inv (ledger st)"
    "0 \<le> fee_rate_of st" "fee_rate_of st \<le> 1"
    "\<forall>p \<in> set ps. 0 \<le> p \<and> p \<le> INT_MAX"
    "\<forall>j < length trace. ps ! j * shares (ledger ((st # trace) ! j)) < 2 ^ 53"
  shows "\<forall>t \<in> set trace. ledger_inv (ledger t)"
  using assms
proof (induction ps arbitrary: i st trace)
  case Nil
  then show ?case by simp
next
  case (Cons p ps)
  from Cons.prems(1) obtain s1 rest where
    s1: "onPrice i p st = Some s1" and rest: "replay ps (Suc i) s1 = Some rest"
    and tr: "trace = s1 # rest"
    by (auto split: Option.bind_splits)
  have p: "0 \<le> p" "p \<le> INT_MAX" using Cons.prems(5) by simp_all
  have n0: "p * shares (ledger st) < 2 ^ 53"
    using Cons.prems(6)[rule_format, of 0] by (simp add: tr)
  have i1: "ledger_inv (ledger s1)"
    using onPrice_ledger_inv[OF Cons.prems(2) p Cons.prems(3,4) n0 s1] .
  have f1: "0 \<le> fee_rate_of s1" "fee_rate_of s1 \<le> 1"
    using onPrice_fee_rate[OF s1] Cons.prems(3,4) by simp_all
  have ps: "\<forall>p \<in> set ps. 0 \<le> p \<and> p \<le> INT_MAX" using Cons.prems(5) by simp
  have nn: "\<forall>j < length rest. ps ! j * shares (ledger ((s1 # rest) ! j)) < 2 ^ 53"
  proof (intro allI impI)
    fix j assume "j < length rest"
    then have "Suc j < length trace" by (simp add: tr)
    from Cons.prems(6)[rule_format, OF this] show
      "ps ! j * shares (ledger ((s1 # rest) ! j)) < 2 ^ 53" by (simp add: tr)
  qed
  from Cons.IH[OF rest i1 f1 ps nn] i1 show ?case by (simp add: tr)
qed

lemma new_ledger_inv:
  assumes "0 \<le> initCash"
  shows "ledger_inv (new_PanicSellStrategy initCash t f)"
    "ledger_inv (new_DCAStrategy initCash d n r f)"
    "ledger_inv (new_HoldStrategy initCash r f)"
  using assms
  by (simp_all add: ledger_inv_def new_PanicSellStrategy_def new_DCAStrategy_def
      new_HoldStrategy_def INT_MAX_def)

text \<open>
  C10 (as amended). From non-negative initial cash the constructors establish
  \<open>cash \<ge> 0\<close>, \<open>shares \<ge> 0\<close>, \<open>0 \<le> avgPrice \<le> INT_MAX\<close>, and every defined operation keeps
  it at a price in \<open>[0, INT_MAX]\<close>: \<open>buy\<close> without further condition; \<open>sellAll\<close>, which
  then only adds to cash, and hence a tick of any strategy, when the fee rate is in
  \<open>[0, 1]\<close> and the sale notional \<open>price * shares\<close> is below \<open>2^53\<close>, so that its
  conversion to \<^verbatim>\<open>double\<close> is exact. Over a run the invariant therefore holds after every
  tick that meets these conditions.
\<close>

theorem ledger_invariant_kept:
  "(0 \<le> initCash \<longrightarrow>
      ledger_inv (new_PanicSellStrategy initCash t f)
      \<and> ledger_inv (new_DCAStrategy initCash d n r f)
      \<and> ledger_inv (new_HoldStrategy initCash r f))
   \<and> (ledger_inv s \<and> 0 \<le> price \<and> price \<le> INT_MAX
        \<and> buy price qty fee s = Some s' \<longrightarrow> ledger_inv s')
   \<and> (ledger_inv s \<and> 0 \<le> price \<and> 0 \<le> fee \<and> fee \<le> 1 \<and> price * shares s < 2 ^ 53
        \<and> sellAll price fee s = Some s'' \<longrightarrow> ledger_inv s'' \<and> cash s \<le> cash s'')
   \<and> (ledger_inv (ledger st) \<and> 0 \<le> price \<and> price \<le> INT_MAX
        \<and> 0 \<le> fee_rate_of st \<and> fee_rate_of st \<le> 1
        \<and> price * shares (ledger st) < 2 ^ 53
        \<and> onPrice idx price st = Some st' \<longrightarrow> ledger_inv (ledger st'))
   \<and> (ledger_inv (ledger st) \<and> 0 \<le> fee_rate_of st \<and> fee_rate_of st \<le> 1
        \<and> (\<forall>p \<in> set ps. 0 \<le> p \<and> p \<le> INT_MAX)
        \<and> replay ps i st = Some trace
        \<and> (\<forall>j < length trace. ps ! j * shares (ledger ((st # trace) ! j)) < 2 ^ 53)
        \<longrightarrow> (\<forall>t \<in> set trace. ledger_inv (ledger t)))"
proof (intro conjI impI)
  assume "0 \<le> initCash"
  then show "ledger_inv (new_PanicSellStrategy initCash t f)"
    "ledger_inv (new_DCAStrategy initCash d n r f)"
    "ledger_inv (new_HoldStrategy initCash r f)"
    by (rule new_ledger_inv)+
next
  assume "ledger_inv s \<and> 0 \<le> price \<and> price \<le> INT_MAX \<and> buy price qty fee s = Some s'"
  then show "ledger_inv s'" using buy_inv by blast
next
  assume "ledger_inv s \<and> 0 \<le> price \<and> 0 \<le> fee \<and> fee \<le> 1 \<and> price * shares s < 2 ^ 53
        \<and> sellAll price fee s = Some s''"
  then show "ledger_inv s''" "cash s \<le> cash s''" using sellAll_inv by blast+
next
  assume "ledger_inv (ledger st) \<and> 0 \<le> price \<and> price \<le> INT_MAX
        \<and> 0 \<le> fee_rate_of st \<and> fee_rate_of st \<le> 1
        \<and> price * shares (ledger st) < 2 ^ 53
        \<and> onPrice idx price st = Some st'"
  then show "ledger_inv (ledger st')" using onPrice_ledger_inv by blast
next
  assume a: "ledger_inv (ledger st) \<and> 0 \<le> fee_rate_of st \<and> fee_rate_of st \<le> 1
        \<and> (\<forall>p \<in> set ps. 0 \<le> p \<and> p \<le> INT_MAX)
        \<and> replay ps i st = Some trace
        \<and> (\<forall>j < length trace. ps ! j * shares (ledger ((st # trace) ! j)) < 2 ^ 53)"
  show "\<forall>t \<in> set trace. ledger_inv (ledger t)"
    by (rule replay_ledger_inv[of ps i st trace]) (use a in blast)+
qed

theorem ledger_invariant_kept_witness:
  "ledger_inv (new_PanicSellStrategy 1000 DEFAULT_PANIC_THRESHOLD 0)
   \<and> ledger_inv ((mk_ledger 0 10 100)\<lparr>buyCount := 1\<rparr>)
   \<and> ledger_inv ((mk_ledger 900 0 0)\<lparr>sellCount := 1\<rparr>)
   \<and> ledger_inv (ledger (PanicSell \<lparr>cash = 900, shares = 0, avgPrice = 0,
         equityHistory = [1000, 900], buyCount = 1, sellCount = 1,
         stopLossRate = DEFAULT_PANIC_THRESHOLD, feeRate = 0, hasBought = True\<rparr>))
   \<and> ledger_inv (ledger (PanicSell \<lparr>cash = 900, shares = 0, avgPrice = 0,
         equityHistory = [1000, 900, 900], buyCount = 1, sellCount = 1,
         stopLossRate = DEFAULT_PANIC_THRESHOLD, feeRate = 0, hasBought = True\<rparr>))"
proof (intro conjI)
  show "ledger_inv (new_PanicSellStrategy 1000 DEFAULT_PANIC_THRESHOLD 0)"
    by (rule ledger_invariant_kept[THEN conjunct1, rule_format, THEN conjunct1]) simp
  show "ledger_inv ((mk_ledger 0 10 100)\<lparr>buyCount := 1\<rparr>)"
    by (rule ledger_invariant_kept[where s = "mk_ledger 1000 0 0" and price = 100
          and qty = 10 and fee = 0, THEN conjunct2, THEN conjunct1, rule_format])
       (simp add: buy_example INT_MAX_def)
  show "ledger_inv ((mk_ledger 900 0 0)\<lparr>sellCount := 1\<rparr>)"
    by (rule ledger_invariant_kept[where s = "mk_ledger 0 10 100" and price = 90 and fee = 0,
          THEN conjunct2, THEN conjunct2, THEN conjunct1, rule_format, THEN conjunct1])
       (simp add: sellAll_example INT_MAX_def)
  show "ledger_inv (ledger (PanicSell \<lparr>cash = 900, shares = 0, avgPrice = 0,
         equityHistory = [1000, 900], buyCount = 1, sellCount = 1,
         stopLossRate = DEFAULT_PANIC_THRESHOLD, feeRate = 0, hasBought = True\<rparr>))"
    by (rule ledger_invariant_kept[where price = 90 and idx = 1
          and st = "PanicSell \<lparr>cash = 0, shares = 10, avgPrice = 100, equityHistory = [1000],
             buyCount = 1, sellCount = 0, stopLossRate = DEFAULT_PANIC_THRESHOLD, feeRate = 0,
             hasBought = True\<rparr>",
          THEN conjunct2, THEN conjunct2, THEN conjunct2, THEN conjunct1, rule_format])
       (simp add: panic_tick1 ledger_inv_def INT_MAX_def)
  have "\<forall>t \<in> set
      [PanicSell \<lparr>cash = 0, shares = 10, avgPrice = 100, equityHistory = [1000], buyCount = 1,
         sellCount = 0, stopLossRate = DEFAULT_PANIC_THRESHOLD, feeRate = 0, hasBought = True\<rparr>,
       PanicSell \<lparr>cash = 900, shares = 0, avgPrice = 0, equityHistory = [1000, 900],
         buyCount = 1, sellCount = 1, stopLossRate = DEFAULT_PANIC_THRESHOLD, feeRate = 0,
         hasBought = True\<rparr>,
       PanicSell \<lparr>cash = 900, shares = 0, avgPrice = 0, equityHistory = [1000, 900, 900],
         buyCount = 1, sellCount = 1, stopLossRate = DEFAULT_PANIC_THRESHOLD, feeRate = 0,
         hasBought = True\<rparr>]. ledger_inv (ledger t)"
    by (rule ledger_invariant_kept[where ps = "[100, 90, 81]" and i = 0
          and st = "PanicSell (new_PanicSellStrategy 1000 DEFAULT_PANIC_THRESHOLD 0)",
          THEN conjunct2, THEN conjunct2, THEN conjunct2, THEN conjunct2, THEN mp])
       (simp add: panic_tick0 panic_tick1 panic_tick2 ledger_inv_def INT_MAX_def nth_Cons
          split: nat.split)
  then show "ledger_inv (ledger (PanicSell \<lparr>cash = 900, shares = 0, avgPrice = 0,
         equityHistory = [1000, 900, 900], buyCount = 1, sellCount = 1,
         stopLossRate = DEFAULT_PANIC_THRESHOLD, feeRate = 0, hasBought = True\<rparr>))"
    by simp
qed

lemma panic_loss_16_percent:
  "ddiv (int_to_double (4194305 - 5000000)) (int_to_double 5000000) \<le> DEFAULT_PANIC_THRESHOLD"
  unfolding ddiv_def DEFAULT_PANIC_THRESHOLD_def int_to_double_def
  by (rule round_double_mono) simp

lemma big_tick0:
  "PanicSell_onPrice idx 5000000
      (new_PanicSellStrategy 21474836470000000 DEFAULT_PANIC_THRESHOLD 1)
    = Some \<lparr>cash = 0, shares = 2147483647, avgPrice = 5000000,
        equityHistory = [10737418235000000], buyCount = 1, sellCount = 0,
        stopLossRate = DEFAULT_PANIC_THRESHOLD, feeRate = 1, hasBought = True\<rparr>"
  by (simp add: PanicSell_onPrice_def new_PanicSellStrategy_def eval_simps round_double_cost)

lemma big_tick1:
  "PanicSell_onPrice idx 4194305
      \<lparr>cash = 0, shares = 2147483647, avgPrice = 5000000,
        equityHistory = [10737418235000000], buyCount = 1, sellCount = 0,
        stopLossRate = DEFAULT_PANIC_THRESHOLD, feeRate = 1, hasBought = True\<rparr>
    = Some \<lparr>cash = - 1, shares = 0, avgPrice = 0,
        equityHistory = [10737418235000000, - 1], buyCount = 1, sellCount = 1,
        stopLossRate = DEFAULT_PANIC_THRESHOLD, feeRate = 1, hasBought = True\<rparr>"
  using panic_loss_16_percent long_to_double_tie
  by (simp add: PanicSell_onPrice_def sellAll_def recordEquity_def getTotalValue_def
      chk_int_def chk_long_def INT_MIN_def INT_MAX_def LONG_MIN_def LONG_MAX_def dmul_def
      double_to_long_def trunc_zero_def round_double_tie_result)

text \<open>
  C10 as stated fails at the edge of the fee range. With fee rate 1.0 and initial cash
  21474836470000000, PanicSell buys 2147483647 shares at 5000000 and is left with cash 0;
  at the next price 4194305 it sells, the revenue 9007201398030335 becomes
  9007201398030336 as a \<^verbatim>\<open>double\<close>, the fee is one more than the revenue and cash ends
  at \<open>- 1\<close>.
\<close>

theorem ledger_invariant_counterexample:
  "(0::int) \<le> 21474836470000000 \<and> (0::real) \<le> 1 \<and> (1::real) \<le> 1
   \<and> (0::int) \<le> 5000000 \<and> (0::int) \<le> 4194305
   \<and> runBattle [5000000, 4194305]
        [PanicSell (new_PanicSellStrategy 21474836470000000 DEFAULT_PANIC_THRESHOLD 1)]
     = Some [PanicSell \<lparr>cash = - 1, shares = 0, avgPrice = 0,
        equityHistory = [10737418235000000, - 1], buyCount = 1, sellCount = 1,
        stopLossRate = DEFAULT_PANIC_THRESHOLD, feeRate = 1, hasBought = True\<rparr>]
   \<and> cash (ledger (PanicSell \<lparr>cash = - 1, shares = 0, avgPrice = 0,
        equityHistory = [10737418235000000, - 1], buyCount = 1, sellCount = 1,
        stopLossRate = DEFAULT_PANIC_THRESHOLD, feeRate = 1, hasBought = True\<rparr>)) < 0"
  by (simp add: runBattle_def run_loop_step run_loop_done big_tick0 big_tick1
      chk_int_def INT_MIN_def INT_MAX_def)

section \<open>Runs that stay in range\<close>

text \<open>
  At a price \<open>p\<close> with \<open>1 \<le> p\<close> and \<open>2 * p \<le> INT_MAX\<close> the divisor
  \<^verbatim>\<open>price + (int)(price * feeRate)\<close> is a positive \<^verbatim>\<open>int\<close>, and a strategy that is
  \<open>in_range\<close> completes the tick and is \<open>in_range\<close> again.
\<close>

lemma narrow_int_range: "INT_MIN \<le> narrow_int x" "narrow_int x \<le> INT_MAX"
  unfolding narrow_int_def INT_MIN_def INT_MAX_def
  using signed_take_bit_int_greater_eq_minus_exp[of 31 x] signed_take_bit_int_less_exp[of 31 x]
  by simp_all

lemma per_share_defined:
  assumes "1 \<le> p" "2 * p \<le> INT_MAX" "0 \<le> f" "f \<le> 1"
  shows "\<exists>d. per_share p f = Some d \<and> p \<le> d \<and> d \<le> INT_MAX"
proof -
  let ?x = "dmul (int_to_double p) f"
  have p53: "\<bar>p\<bar> < 2 ^ 53" using assms by (simp add: INT_MAX_def)
  have "0 \<le> of_int p * f" using assms by simp
  then have lo: "0 \<le> ?x" unfolding dmul_def int_to_double_def by (rule round_double_nonneg)
  have "of_int p * f \<le> real_of_int p" using assms by (simp add: mult_left_le)
  then have "round_double (of_int p * f) \<le> round_double (of_int p)" by (rule round_double_mono)
  then have hi: "?x \<le> of_int p"
    by (simp add: dmul_def int_to_double_def round_double_of_int[OF p53])
  have t: "trunc_zero ?x = \<lfloor>?x\<rfloor>" using lo by (rule trunc_zero_nonneg)
  have t0: "0 \<le> trunc_zero ?x" using lo by (simp add: t)
  have t1: "trunc_zero ?x \<le> p" using hi by (simp add: t floor_le_iff)
  show ?thesis
    using t0 t1 assms
    by (simp add: per_share_def double_to_int_def chk_int_def INT_MIN_def INT_MAX_def)
qed

lemma long_div_defined:
  assumes "0 \<le> a" "a \<le> LONG_MAX" "0 < d"
  shows "\<exists>q. long_div a d = Some q"
proof -
  have "0 \<le> a div d" using assms by (simp add: pos_imp_zdiv_nonneg_iff)
  moreover have "a div d \<le> a div 1" using assms by (intro zdiv_mono2) simp_all
  ultimately show ?thesis
    using assms by (simp add: long_div_def c_div_nonneg chk_long_def LONG_MIN_def LONG_MAX_def)
qed

lemma amount_defined:
  assumes "0 \<le> c" "c \<le> INT_MAX" "0 \<le> r" "r \<le> 1"
  shows "\<exists>a. double_to_long (dmul (long_to_double c) r) = Some a \<and> 0 \<le> a \<and> a \<le> 2 ^ 62"
proof -
  have "c \<le> 2 ^ 62" using assms(2) by (simp add: INT_MAX_def)
  from fee_amount_bounds[OF assms(1) this assms(3,4)] show ?thesis
    by (simp add: double_to_long_def chk_long_def LONG_MIN_def LONG_MAX_def)
qed

lemma buy_funded:
  assumes "1 \<le> p" "p \<le> INT_MAX" "0 < q" "q \<le> INT_MAX" "0 \<le> f" "f \<le> 1" "funded s"
  shows "\<exists>s'. buy p q f s = Some s' \<and> funded s'"
proof -
  let ?c = "p * q"
  let ?f = "trunc_zero (dmul (long_to_double ?c) f)"
  have i: "ledger_inv s" "cash s + shares s \<le> INT_MAX" "0 \<le> buyCount s"
    "buyCount s \<le> shares s" "0 \<le> cash s" "0 \<le> shares s"
    using assms(7) by (simp_all add: funded_def ledger_inv_def)
  have c0: "0 \<le> ?c" using assms(1,3) by simp
  have cq: "q \<le> ?c" using assms(1,3) by (simp add: mult_le_cancel_right1)
  have "?c \<le> INT_MAX * INT_MAX" using assms(1-4) by (intro mult_mono) simp_all
  then have c1: "?c \<le> 4611686014132420609" by (simp add: INT_MAX_def)
  then have c2: "?c \<le> 2 ^ 62" by simp
  note f = fee_amount_bounds[OF c0 c2 assms(5,6)]
  have ex: "\<exists>s'. buy p q f s = Some s'"
  proof (cases "?c + ?f \<le> cash s")
    case True
    then have sq: "shares s + q \<le> INT_MAX" using cq f(1) i(2) by linarith
    have "cash s \<le> LONG_MAX" "shares s \<le> INT_MAX" "buyCount s < INT_MAX"
      using i sq assms(3) by (simp_all add: LONG_MAX_def INT_MAX_def)
    then show ?thesis
      using assms i sq by (intro buy_defined) simp_all
  next
    case False
    then show ?thesis
      using c0 c1 f
      by (simp add: buy_def Let_def double_to_long_def chk_long_def LONG_MIN_def LONG_MAX_def)
  qed
  then obtain s' where s': "buy p q f s = Some s'" by blast
  have li: "ledger_inv s'" using buy_inv[OF i(1) _ assms(2) s'] assms(1) by simp
  have "cash s' + shares s' \<le> INT_MAX \<and> 0 \<le> buyCount s' \<and> buyCount s' \<le> shares s'"
  proof (cases "0 < q \<and> ?c + ?f \<le> cash s")
    case True
    then have "cash s' = cash s - (?c + ?f)" "shares s' = shares s + q"
      "buyCount s' = buyCount s + 1"
      using buy_Some[OF s'] by (simp_all add: Let_def)
    then show ?thesis using i cq f(1) assms(3) by linarith
  next
    case False
    then have "s' = s" using buy_Some[OF s'] by (simp add: Let_def; linarith)
    then show ?thesis using i by simp
  qed
  with s' li show ?thesis by (auto simp: funded_def)
qed


lemma funded_bounds:
  assumes "funded s"
  shows "0 \<le> cash s" "cash s \<le> INT_MAX" "0 \<le> shares s" "shares s \<le> INT_MAX"
    "- (2 ^ 62) \<le> cash s" "cash s \<le> 2 ^ 62"
  using assms by (simp_all add: funded_def ledger_inv_def INT_MAX_def)

lemma recordEquity_defined:
  assumes "- (2 ^ 62) \<le> cash s" "cash s \<le> 2 ^ 62" "0 \<le> shares s" "shares s \<le> INT_MAX"
    "0 \<le> p" "p \<le> INT_MAX"
  shows "recordEquity p s = Some (s\<lparr>equityHistory := equityHistory s @ [cash s + shares s * p]\<rparr>)"
proof -
  have "shares s * p \<le> INT_MAX * INT_MAX" using assms by (intro mult_mono) simp_all
  then have "shares s * p \<le> 4611686014132420609" by (simp add: INT_MAX_def)
  moreover have "0 \<le> shares s * p" using assms by simp
  ultimately show ?thesis
    using assms(1,2) by (simp add: recordEquity_Some LONG_MIN_def LONG_MAX_def)
qed

lemma PanicSell_onPrice_defined:
  assumes "in_range (PanicSell s)" "1 \<le> p" "2 * p \<le> INT_MAX"
  shows "\<exists>s'. PanicSell_onPrice i p s = Some s' \<and> in_range (PanicSell s')"
proof -
  let ?f = "PanicSellStrategy.feeRate s"
  have fr: "0 \<le> ?f" "?f \<le> 1" and pinv: "panic_inv s"
    and cond: "idle s \<or> funded s"
    using assms(1) by simp_all
  have p: "0 \<le> p" "p \<le> INT_MAX" using assms(2,3) by simp_all
  have ex: "\<exists>s'. PanicSell_onPrice i p s = Some s' \<and> (idle s' \<or> funded s')"
  proof (cases "\<not> PanicSellStrategy.hasBought s \<and> p \<le> cash s")
    case True
    then have fu: "funded s" using cond by (auto simp: idle_def)
    note b = funded_bounds[OF fu]
    from per_share_defined[OF assms(2,3) fr] obtain d where
      d: "per_share p ?f = Some d" "p \<le> d" by blast
    have "\<exists>q. long_div (cash s) d = Some q"
      using b d(2) assms(2) by (intro long_div_defined) (simp_all add: LONG_MAX_def INT_MAX_def)
    then obtain q where q: "long_div (cash s) d = Some q" by blast
    show ?thesis
    proof (cases "0 < narrow_int q")
      case qpos: True
      from buy_funded[OF assms(2) p(2) qpos narrow_int_range(2) fr fu] obtain s1 where
        s1: "buy p (narrow_int q) ?f s = Some s1" "funded s1" by blast
      let ?s2 = "s1\<lparr>PanicSellStrategy.hasBought := True\<rparr>"
      have f2: "funded ?s2" using s1(2) by (simp add: funded_def ledger_inv_def)
      note b2 = funded_bounds[OF f2]
      note rec = recordEquity_defined[OF b2(5,6,3,4) p]
      have "PanicSell_onPrice i p s
          = Some (?s2\<lparr>equityHistory := equityHistory ?s2 @ [cash ?s2 + shares ?s2 * p]\<rparr>)"
        using True d(1) q qpos s1(1) rec by (simp add: PanicSell_onPrice_def)
      moreover have "funded (?s2\<lparr>equityHistory := equityHistory ?s2 @ [cash ?s2 + shares ?s2 * p]\<rparr>)"
        using f2 by (simp add: funded_def ledger_inv_def)
      ultimately show ?thesis by blast
    next
      case False
      note rec = recordEquity_defined[OF b(5,6,3,4) p]
      have "PanicSell_onPrice i p s
          = Some (s\<lparr>equityHistory := equityHistory s @ [cash s + shares s * p]\<rparr>)"
        using True d(1) q False rec by (simp add: PanicSell_onPrice_def)
      moreover have "funded (s\<lparr>equityHistory := equityHistory s @ [cash s + shares s * p]\<rparr>)"
        using fu by (simp add: funded_def ledger_inv_def)
      ultimately show ?thesis by blast
    qed
  next
    case False
    then have nobuy: "(\<not> PanicSellStrategy.hasBought s \<and> p \<le> cash s) = False" by simp
    show ?thesis
    proof (cases "0 < shares s \<and> 0 < avgPrice s")
      case True
      then have fu: "funded s" using cond by (auto simp: idle_def)
      note b = funded_bounds[OF fu]
      have li: "ledger_inv s" using fu by (simp add: funded_def)
      have hb: "PanicSellStrategy.hasBought s" using pinv True by (auto simp: panic_inv_def)
      have a: "avgPrice s \<le> INT_MAX" using li by (simp add: ledger_inv_def)
      have diff: "chk_int (p - avgPrice s) = Some (p - avgPrice s)"
        using True a p by (simp add: chk_int_def INT_MIN_def INT_MAX_def)
      show ?thesis
      proof (cases "ddiv (int_to_double (p - avgPrice s)) (int_to_double (avgPrice s))
          \<le> stopLossRate s")
        case sell: True
        let ?r = "p * shares s"
        let ?fee = "trunc_zero (dmul (long_to_double ?r) ?f)"
        have r0: "0 \<le> ?r" using p b by simp
        have "?r \<le> INT_MAX * INT_MAX" using p b by (intro mult_mono) simp_all
        then have r1: "?r \<le> 4611686014132420609" by (simp add: INT_MAX_def)
        then have r2: "?r \<le> 2 ^ 62" by simp
        note fee = fee_amount_bounds[OF r0 r2 fr]
        have sc: "0 \<le> sellCount s" "sellCount s < INT_MAX"
          using pinv by (auto simp: panic_inv_def INT_MAX_def)
        have "cash s + ?r \<le> LONG_MAX" using b(2) r1 by (simp add: LONG_MAX_def INT_MAX_def)
        from sellAll_defined[OF p fr li b(4) this sc] obtain s1 where
          s1: "sellAll p ?f s = Some s1" by blast
        have s1eq: "s1 = s\<lparr>cash := cash s + (?r - ?fee), shares := 0, avgPrice := 0,
              sellCount := sellCount s + 1\<rparr>"
          using sellAll_Some[OF s1] True by (simp add: Let_def)
        have c1: "- (2 ^ 62) \<le> cash s1" "cash s1 \<le> 2 ^ 62"
          using b(1,2) r0 r1 fee by (simp_all add: s1eq INT_MAX_def)
        have sh1: "shares s1 = 0" "PanicSellStrategy.hasBought s1" using hb by (simp_all add: s1eq)
        have rec: "recordEquity p s1
            = Some (s1\<lparr>equityHistory := equityHistory s1 @ [cash s1 + shares s1 * p]\<rparr>)"
          using c1 sh1 p by (intro recordEquity_defined) (simp_all add: INT_MAX_def)
        have "PanicSell_onPrice i p s
            = Some (s1\<lparr>equityHistory := equityHistory s1 @ [cash s1 + shares s1 * p]\<rparr>)"
          using True diff sell s1 rec by (simp add: PanicSell_onPrice_def Let_def nobuy)
        moreover have "idle (s1\<lparr>equityHistory := equityHistory s1 @ [cash s1 + shares s1 * p]\<rparr>)"
          using c1 sh1 by (simp add: idle_def)
        ultimately show ?thesis by blast
      next
        case False
        note rec = recordEquity_defined[OF b(5,6,3,4) p]
        have "PanicSell_onPrice i p s
            = Some (s\<lparr>equityHistory := equityHistory s @ [cash s + shares s * p]\<rparr>)"
          using True diff False rec by (simp add: PanicSell_onPrice_def Let_def nobuy)
        moreover have "funded (s\<lparr>equityHistory := equityHistory s @ [cash s + shares s * p]\<rparr>)"
          using fu by (simp add: funded_def ledger_inv_def)
        ultimately show ?thesis by blast
      qed
    next
      case False
      then have nosell: "(0 < shares s \<and> 0 < avgPrice s) = False" by simp
      have sh: "0 \<le> shares s" "shares s \<le> INT_MAX" "- (2 ^ 62) \<le> cash s" "cash s \<le> 2 ^ 62"
        using cond funded_bounds[of s] by (auto simp: idle_def INT_MAX_def)
      note rec = recordEquity_defined[OF sh(3,4,1,2) p]
      have "PanicSell_onPrice i p s
          = Some (s\<lparr>equityHistory := equityHistory s @ [cash s + shares s * p]\<rparr>)"
        using rec by (simp add: PanicSell_onPrice_def Let_def nobuy nosell)
      moreover have "idle (s\<lparr>equityHistory := equityHistory s @ [cash s + shares s * p]\<rparr>)
          \<or> funded (s\<lparr>equityHistory := equityHistory s @ [cash s + shares s * p]\<rparr>)"
        using cond by (simp add: idle_def funded_def ledger_inv_def)
      ultimately show ?thesis by blast
    qed
  qed
  then obtain s' where s': "PanicSell_onPrice i p s = Some s'"
    and c': "idle s' \<or> funded s'" by blast
  have "panic_inv s'" using PanicSell_onPrice_inv(1)[OF s' pinv] .
  moreover have "PanicSellStrategy.feeRate s' = ?f" using PanicSell_onPrice_feeRate[OF s'] .
  ultimately have "in_range (PanicSell s')" using fr c' by simp
  with s' show ?thesis by blast
qed


lemma buy_DCA_params:
  "buy price qty fee s = Some s' \<Longrightarrow>
     DCAStrategy.feeRate s' = DCAStrategy.feeRate s \<and> buyRatio s' = buyRatio s"
  by (drule buy_Some) (simp add: Let_def split: if_splits)

lemma buy_Hold_params:
  "buy price qty fee s = Some s' \<Longrightarrow>
     HoldStrategy.feeRate s' = HoldStrategy.feeRate s \<and> initialBuyRatio s' = initialBuyRatio s"
  by (drule buy_Some) (simp add: Let_def split: if_splits)

lemma DCA_shouldBuy_defined:
  assumes "in_range (DCA s)" "1 \<le> p" "2 * p \<le> INT_MAX" "int i \<le> INT_MAX"
  shows "\<exists>b. DCA_shouldBuy i p s = Some b"
proof -
  have n: "narrow_int (int i) = int i"
    using assms(4) by (intro narrow_int_id) (simp_all add: INT_MIN_def)
  have r: "0 \<le> lastBuyPrice s" "lastBuyPrice s \<le> INT_MAX" "- 1 \<le> lastBuyIndex s"
    "lastBuyIndex s \<le> INT_MAX"
    using assms(1) by simp_all
  show ?thesis
    using r assms(2,3,4)
    by (auto simp: DCA_shouldBuy_def n chk_int_def INT_MIN_def INT_MAX_def)
qed

lemma DCA_onPrice_defined:
  assumes "in_range (DCA s)" "1 \<le> p" "2 * p \<le> INT_MAX" "int i \<le> INT_MAX"
  shows "\<exists>s'. DCA_onPrice i p s = Some s' \<and> in_range (DCA s')"
proof -
  let ?f = "DCAStrategy.feeRate s"
  have fr: "0 \<le> ?f" "?f \<le> 1" and rr: "0 \<le> buyRatio s" "buyRatio s \<le> 1"
    and fu: "funded s"
    and r: "0 \<le> lastBuyPrice s" "lastBuyPrice s \<le> INT_MAX" "- 1 \<le> lastBuyIndex s"
      "lastBuyIndex s \<le> INT_MAX"
    using assms(1) by simp_all
  have p: "0 \<le> p" "p \<le> INT_MAX" using assms(2,3) by simp_all
  note b = funded_bounds[OF fu]
  note rec = recordEquity_defined[OF b(5,6,3,4) p]
  have keep: "in_range (DCA (s\<lparr>equityHistory := equityHistory s @ [cash s + shares s * p]\<rparr>))"
    using assms(1) by (simp add: funded_def ledger_inv_def)
  from DCA_shouldBuy_defined[OF assms] obtain sb where sb: "DCA_shouldBuy i p s = Some sb"
    by blast
  show ?thesis
  proof (cases sb)
    case False
    have "DCA_onPrice i p s
        = Some (s\<lparr>equityHistory := equityHistory s @ [cash s + shares s * p]\<rparr>)"
      using sb False rec by (simp add: DCA_onPrice_def)
    with keep show ?thesis by blast
  next
    case True
    from amount_defined[OF b(1,2) rr] obtain a where
      a: "double_to_long (dmul (long_to_double (cash s)) (buyRatio s)) = Some a"
        "0 \<le> a" "a \<le> 2 ^ 62" by blast
    let ?amt = "if a < p then cash s else a"
    have amt: "0 \<le> ?amt" "?amt \<le> LONG_MAX" using a b by (simp_all add: LONG_MAX_def INT_MAX_def)
    from per_share_defined[OF assms(2,3) fr] obtain d where
      d: "per_share p ?f = Some d" "p \<le> d" by blast
    have "0 < d" using d(2) assms(2) by simp
    from long_div_defined[OF amt this] obtain q where q: "long_div ?amt d = Some q" by blast
    show ?thesis
    proof (cases "0 < narrow_int q")
      case False
      have "DCA_onPrice i p s
          = Some (s\<lparr>equityHistory := equityHistory s @ [cash s + shares s * p]\<rparr>)"
        using sb True a(1) d(1) q False rec by (simp add: DCA_onPrice_def Let_def)
      with keep show ?thesis by blast
    next
      case qpos: True
      from buy_funded[OF assms(2) p(2) qpos narrow_int_range(2) fr fu] obtain s1 where
        s1: "buy p (narrow_int q) ?f s = Some s1" "funded s1" by blast
      let ?s2 = "s1\<lparr>lastBuyIndex := narrow_int (int i), lastBuyPrice := p\<rparr>"
      have f2: "funded ?s2" using s1(2) by (simp add: funded_def ledger_inv_def)
      note b2 = funded_bounds[OF f2]
      note rec2 = recordEquity_defined[OF b2(5,6,3,4) p]
      have n: "narrow_int (int i) = int i"
        using assms(4) by (intro narrow_int_id) (simp_all add: INT_MIN_def)
      have "DCA_onPrice i p s
          = Some (?s2\<lparr>equityHistory := equityHistory ?s2 @ [cash ?s2 + shares ?s2 * p]\<rparr>)"
        using sb True a(1) d(1) q qpos s1(1) rec2 by (simp add: DCA_onPrice_def Let_def)
      moreover have "in_range
          (DCA (?s2\<lparr>equityHistory := equityHistory ?s2 @ [cash ?s2 + shares ?s2 * p]\<rparr>))"
        using f2 buy_DCA_params[OF s1(1)] fr rr p assms(4)
        by (simp add: funded_def ledger_inv_def n)
      ultimately show ?thesis by blast
    qed
  qed
qed

lemma Hold_onPrice_defined:
  assumes "in_range (Hold s)" "1 \<le> p" "2 * p \<le> INT_MAX"
  shows "\<exists>s'. Hold_onPrice i p s = Some s' \<and> in_range (Hold s')"
proof -
  let ?f = "HoldStrategy.feeRate s"
  have fr: "0 \<le> ?f" "?f \<le> 1" and rr: "0 \<le> initialBuyRatio s" "initialBuyRatio s \<le> 1"
    and fu: "funded s"
    using assms(1) by simp_all
  have p: "0 \<le> p" "p \<le> INT_MAX" using assms(2,3) by simp_all
  note b = funded_bounds[OF fu]
  note rec = recordEquity_defined[OF b(5,6,3,4) p]
  have keep: "in_range (Hold (s\<lparr>equityHistory := equityHistory s @ [cash s + shares s * p]\<rparr>))"
    using assms(1) by (simp add: funded_def ledger_inv_def)
  show ?thesis
  proof (cases "\<not> HoldStrategy.hasBought s \<and> p \<le> cash s")
    case False
    then have nobuy: "(\<not> HoldStrategy.hasBought s \<and> p \<le> cash s) = False" by simp
    have "Hold_onPrice i p s
        = Some (s\<lparr>equityHistory := equityHistory s @ [cash s + shares s * p]\<rparr>)"
      using rec by (simp add: Hold_onPrice_def nobuy)
    with keep show ?thesis by blast
  next
    case True
    from amount_defined[OF b(1,2) rr] obtain a where
      a: "double_to_long (dmul (long_to_double (cash s)) (initialBuyRatio s)) = Some a"
        "0 \<le> a" "a \<le> 2 ^ 62" by blast
    have amt: "0 \<le> a" "a \<le> LONG_MAX" using a by (simp_all add: LONG_MAX_def)
    from per_share_defined[OF assms(2,3) fr] obtain d where
      d: "per_share p ?f = Some d" "p \<le> d" by blast
    have "0 < d" using d(2) assms(2) by simp
    from long_div_defined[OF amt this] obtain q where q: "long_div a d = Some q" by blast
    show ?thesis
    proof (cases "0 < narrow_int q")
      case False
      have "Hold_onPrice i p s
          = Some (s\<lparr>equityHistory := equityHistory s @ [cash s + shares s * p]\<rparr>)"
        using True a(1) d(1) q False rec by (simp add: Hold_onPrice_def Let_def)
      with keep show ?thesis by blast
    next
      case qpos: True
      from buy_funded[OF assms(2) p(2) qpos narrow_int_range(2) fr fu] obtain s1 where
        s1: "buy p (narrow_int q) ?f s = Some s1" "funded s1" by blast
      let ?s2 = "s1\<lparr>HoldStrategy.hasBought := True\<rparr>"
      have f2: "funded ?s2" using s1(2) by (simp add: funded_def ledger_inv_def)
      note b2 = funded_bounds[OF f2]
      note rec2 = recordEquity_defined[OF b2(5,6,3,4) p]
      have "Hold_onPrice i p s
          = Some (?s2\<lparr>equityHistory := equityHistory ?s2 @ [cash ?s2 + shares ?s2 * p]\<rparr>)"
        using True a(1) d(1) q qpos s1(1) rec2 by (simp add: Hold_onPrice_def Let_def)
      moreover have "in_range
          (Hold (?s2\<lparr>equityHistory := equityHistory ?s2 @ [cash ?s2 + shares ?s2 * p]\<rparr>))"
        using f2 buy_Hold_params[OF s1(1)] fr rr
        by (simp add: funded_def ledger_inv_def)
      ultimately show ?thesis by blast
    qed
  qed
qed

lemma onPrice_defined:
  assumes "in_range st" "1 \<le> p" "2 * p \<le> INT_MAX" "int i \<le> INT_MAX"
  shows "\<exists>st'. onPrice i p st = Some st' \<and> in_range st'"
proof (cases st)
  case (PanicSell s)
  with PanicSell_onPrice_defined[of s p i] assms show ?thesis by auto
next
  case (DCA s)
  with DCA_onPrice_defined[of s p i] assms show ?thesis by auto
next
  case (Hold s)
  with Hold_onPrice_defined[of s p i] assms show ?thesis by auto
qed

lemma tick_strategies_defined:
  assumes "\<forall>s \<in> set ss. in_range s" "1 \<le> p" "2 * p \<le> INT_MAX" "int i \<le> INT_MAX"
  shows "\<exists>ss'. tick_strategies i p ss = Some ss' \<and> (\<forall>s \<in> set ss'. in_range s)"
  using assms(1)
proof (induction ss)
  case Nil
  then show ?case by simp
next
  case (Cons s ss)
  from onPrice_defined[OF _ assms(2,3,4), of s] Cons.prems obtain s' where
    s': "onPrice i p s = Some s'" "in_range s'" by auto
  from Cons.IH Cons.prems obtain ss' where
    ss': "tick_strategies i p ss = Some ss'" "\<forall>s \<in> set ss'. in_range s" by auto
  show ?case using s' ss' by simp
qed

lemma run_loop_defined:
  assumes "\<forall>p \<in> set prices. 1 \<le> p \<and> 2 * p \<le> INT_MAX"
    and "int (length prices) \<le> INT_MAX + 1"
    and "\<forall>s \<in> set ss. in_range s"
    and "i = 0 \<or> (1 \<le> prev \<and> 2 * prev \<le> INT_MAX)"
  shows "\<exists>ss'. run_loop prices ss prev i = Some ss'"
  using assms(3,4)
proof (induction "length prices - i" arbitrary: i ss prev)
  case 0
  then show ?case by (simp add: run_loop_done)
next
  case (Suc n)
  then have lt: "i < length prices" by simp
  let ?p = "prices ! i"
  have pr: "1 \<le> ?p" "2 * ?p \<le> INT_MAX" using assms(1) lt by simp_all
  have ii: "int i \<le> INT_MAX" using lt assms(2) by simp
  have chk: "(if i = 0 then Some 0 else chk_int (?p - prev)) \<noteq> None"
    using Suc.prems(2) pr by (auto simp: chk_int_def INT_MIN_def INT_MAX_def)
  from tick_strategies_defined[OF Suc.prems(1) pr ii] obtain ss1 where
    ss1: "tick_strategies i ?p ss = Some ss1" "\<forall>s \<in> set ss1. in_range s" by blast
  have "n = length prices - Suc i" using Suc.hyps(2) by simp
  from Suc.hyps(1)[OF this ss1(2), of ?p] pr obtain ss' where
    "run_loop prices ss1 ?p (Suc i) = Some ss'" by auto
  then show ?case
    using chk ss1(1) by (subst run_loop_step[OF lt]) auto
qed

lemma runBattle_defined:
  assumes "\<forall>p \<in> set prices. 1 \<le> p \<and> 2 * p \<le> INT_MAX"
    and "int (length prices) \<le> INT_MAX + 1"
    and "\<forall>s \<in> set strategies. in_range s"
  shows "\<exists>strategies'. runBattle prices strategies = Some strategies'"
  using run_loop_defined[OF assms, of 0] by (simp add: runBattle_def)

lemma new_in_range:
  assumes "0 \<le> c" "c \<le> INT_MAX" "0 \<le> f" "f \<le> 1"
  shows "in_range (PanicSell (new_PanicSellStrategy c t f))"
    and "0 \<le> r \<Longrightarrow> r \<le> 1 \<Longrightarrow> in_range (DCA (new_DCAStrategy c d n r f))"
    and "0 \<le> r \<Longrightarrow> r \<le> 1 \<Longrightarrow> in_range (Hold (new_HoldStrategy c r f))"
  using assms
  by (simp_all add: new_PanicSellStrategy_def new_DCAStrategy_def new_HoldStrategy_def
      funded_def ledger_inv_def panic_inv_def INT_MAX_def)

text \<open>
  C4 (as amended). The constructors start with an empty equity history, and with initial
  cash in \<open>[0, INT_MAX]\<close>, a fee rate in \<open>[0, 1]\<close> and buy ratios in \<open>[0, 1]\<close> they give
  strategies that are \<open>in_range\<close>. For every price series with at most \<open>2^31\<close> ticks whose
  prices \<open>p\<close> all satisfy \<open>1 \<le> p\<close> and \<open>2 * p \<le> INT_MAX\<close>, and every list of strategies
  that are \<open>in_range\<close>, the run of the engine returns, and it has taken every strategy through
  the ticks in order (\<open>replay\<close>), appending to its equity history exactly one snapshot per
  tick, the first tick included: the total value \<open>cash + shares * price\<close> of the state
  reached after that tick, at that tick's price. The history grows by the number of price
  ticks, so a strategy that starts with an empty history ends with one entry per tick. The
  same holds of every run that returns, whatever the prices and the strategies.
\<close>

theorem runBattle_equity_history:
  "(equityHistory (new_PanicSellStrategy c t f) = []
      \<and> equityHistory (new_DCAStrategy c d n rd f) = []
      \<and> equityHistory (new_HoldStrategy c rh f) = [])
   \<and> (0 \<le> c \<and> c \<le> INT_MAX \<and> 0 \<le> f \<and> f \<le> 1
        \<and> 0 \<le> rd \<and> rd \<le> 1 \<and> 0 \<le> rh \<and> rh \<le> 1 \<longrightarrow>
        in_range (PanicSell (new_PanicSellStrategy c t f))
        \<and> in_range (DCA (new_DCAStrategy c d n rd f))
        \<and> in_range (Hold (new_HoldStrategy c rh f)))
   \<and> ((\<forall>p \<in> set prices. 1 \<le> p \<and> 2 * p \<le> INT_MAX)
        \<and> int (length prices) \<le> INT_MAX + 1
        \<and> (\<forall>s \<in> set strategies. in_range s) \<longrightarrow>
        (\<exists>result. runBattle prices strategies = Some result
          \<and> list_all2 (\<lambda>s s'. \<exists>trace. replay prices 0 s = Some trace
               \<and> length trace = length prices
               \<and> s' = last (s # trace)
               \<and> equityHistory (ledger s') = equityHistory (ledger s)
                    @ map2 (\<lambda>t p. cash (ledger t) + shares (ledger t) * p) trace prices
               \<and> length (equityHistory (ledger s'))
                    = length (equityHistory (ledger s)) + length prices)
             strategies result))
   \<and> (runBattle prices strategies = Some strategies' \<longrightarrow>
        list_all2 (\<lambda>s s'. \<exists>trace. replay prices 0 s = Some trace
            \<and> length trace = length prices
            \<and> s' = last (s # trace)
            \<and> equityHistory (ledger s') = equityHistory (ledger s)
                 @ map2 (\<lambda>t p. cash (ledger t) + shares (ledger t) * p) trace prices
            \<and> length (equityHistory (ledger s'))
                 = length (equityHistory (ledger s)) + length prices)
          strategies strategies')"
proof -
  have part: "list_all2 (\<lambda>s s'. \<exists>trace. replay prices 0 s = Some trace
            \<and> length trace = length prices
            \<and> s' = last (s # trace)
            \<and> equityHistory (ledger s') = equityHistory (ledger s)
                 @ map2 (\<lambda>t p. cash (ledger t) + shares (ledger t) * p) trace prices
            \<and> length (equityHistory (ledger s'))
                 = length (equityHistory (ledger s)) + length prices)
          strategies res"
    if "runBattle prices strategies = Some res" for res
    by (rule list_all2_mono[OF runBattle_replay[OF that]]) (rule replay_summary)
  show ?thesis
  proof (intro conjI impI)
    show "equityHistory (new_PanicSellStrategy c t f) = []"
      "equityHistory (new_DCAStrategy c d n rd f) = []"
      "equityHistory (new_HoldStrategy c rh f) = []"
      by (simp_all add: new_PanicSellStrategy_def new_DCAStrategy_def new_HoldStrategy_def)
  next
    assume a: "0 \<le> c \<and> c \<le> INT_MAX \<and> 0 \<le> f \<and> f \<le> 1
        \<and> 0 \<le> rd \<and> rd \<le> 1 \<and> 0 \<le> rh \<and> rh \<le> 1"
    then show "in_range (PanicSell (new_PanicSellStrategy c t f))"
      "in_range (DCA (new_DCAStrategy c d n rd f))"
      "in_range (Hold (new_HoldStrategy c rh f))"
      using new_in_range by blast+
  next
    assume a: "(\<forall>p \<in> set prices. 1 \<le> p \<and> 2 * p \<le> INT_MAX)
        \<and> int (length prices) \<le> INT_MAX + 1
        \<and> (\<forall>s \<in> set strategies. in_range s)"
    then obtain res where "runBattle prices strategies = Some res"
      using runBattle_defined[of prices strategies] by blast
    with part[OF this] show "\<exists>result. runBattle prices strategies = Some result
          \<and> list_all2 (\<lambda>s s'. \<exists>trace. replay prices 0 s = Some trace
               \<and> length trace = length prices
               \<and> s' = last (s # trace)
               \<and> equityHistory (ledger s') = equityHistory (ledger s)
                    @ map2 (\<lambda>t p. cash (ledger t) + shares (ledger t) * p) trace prices
               \<and> length (equityHistory (ledger s'))
                    = length (equityHistory (ledger s)) + length prices)
             strategies result" by blast
  next
    assume "runBattle prices strategies = Some strategies'"
    then show "list_all2 (\<lambda>s s'. \<exists>trace. replay prices 0 s = Some trace
            \<and> length trace = length prices
            \<and> s' = last (s # trace)
            \<and> equityHistory (ledger s') = equityHistory (ledger s)
                 @ map2 (\<lambda>t p. cash (ledger t) + shares (ledger t) * p) trace prices
            \<and> length (equityHistory (ledger s'))
                 = length (equityHistory (ledger s)) + length prices)
          strategies strategies'" by (rule part)
  qed
qed

text \<open>
  On the three-tick series 100, 90, 81 with one strategy of each kind, each created by its
  constructor with cash 1000, the run returns and every history has three entries; the
  states it returns are those of the worked run.
\<close>

theorem runBattle_equity_history_witness:
  "(\<exists>result. runBattle [100, 90, 81]
       [PanicSell (new_PanicSellStrategy 1000 DEFAULT_PANIC_THRESHOLD 0),
        DCA (new_DCAStrategy 1000 DEFAULT_DCA_DROP_RATE 5 (1 / 4) 0),
        Hold (new_HoldStrategy 1000 (1 / 2) 0)] = Some result
     \<and> list_all2 (\<lambda>s s'. length (equityHistory (ledger s')) = 3)
       [PanicSell (new_PanicSellStrategy 1000 DEFAULT_PANIC_THRESHOLD 0),
        DCA (new_DCAStrategy 1000 DEFAULT_DCA_DROP_RATE 5 (1 / 4) 0),
        Hold (new_HoldStrategy 1000 (1 / 2) 0)] result)
   \<and> list_all2 (\<lambda>s s'. length (equityHistory (ledger s'))
          = length (equityHistory (ledger s)) + 3)
       [PanicSell (new_PanicSellStrategy 1000 DEFAULT_PANIC_THRESHOLD 0),
        DCA (new_DCAStrategy 1000 DEFAULT_DCA_DROP_RATE 5 (1 / 4) 0),
        Hold (new_HoldStrategy 1000 (1 / 2) 0)]
       [PanicSell \<lparr>cash = 900, shares = 0, avgPrice = 0, equityHistory = [1000, 900, 900],
          buyCount = 1, sellCount = 1, stopLossRate = DEFAULT_PANIC_THRESHOLD, feeRate = 0,
          hasBought = True\<rparr>,
        DCA \<lparr>cash = 539, shares = 5, avgPrice = 92, equityHistory = [1000, 980, 944],
          buyCount = 3, sellCount = 0, dcaDropRate = DEFAULT_DCA_DROP_RATE, dcaInterval = 5,
          buyRatio = 1 / 4, feeRate = 0, lastBuyIndex = 2, lastBuyPrice = 81\<rparr>,
        Hold \<lparr>cash = 500, shares = 5, avgPrice = 100, equityHistory = [1000, 950, 905],
          buyCount = 1, sellCount = 0, initialBuyRatio = 1 / 2, feeRate = 0,
          hasBought = True\<rparr>]"
proof -
  note t = runBattle_equity_history[where c = 1000 and f = 0 and rd = "1 / 4" and rh = "1 / 2"
      and t = DEFAULT_PANIC_THRESHOLD and d = DEFAULT_DCA_DROP_RATE and n = 5
      and prices = "[100, 90, 81]"
      and strategies = "[PanicSell (new_PanicSellStrategy 1000 DEFAULT_PANIC_THRESHOLD 0),
        DCA (new_DCAStrategy 1000 DEFAULT_DCA_DROP_RATE 5 (1 / 4) 0),
        Hold (new_HoldStrategy 1000 (1 / 2) 0)]"]
  have e: "equityHistory (new_PanicSellStrategy 1000 DEFAULT_PANIC_THRESHOLD 0) = []"
    "equityHistory (new_DCAStrategy 1000 DEFAULT_DCA_DROP_RATE 5 (1 / 4) 0) = []"
    "equityHistory (new_HoldStrategy 1000 (1 / 2) 0) = []"
    using t[THEN conjunct1] by simp_all
  have r: "in_range (PanicSell (new_PanicSellStrategy 1000 DEFAULT_PANIC_THRESHOLD 0))
      \<and> in_range (DCA (new_DCAStrategy 1000 DEFAULT_DCA_DROP_RATE 5 (1 / 4) 0))
      \<and> in_range (Hold (new_HoldStrategy 1000 (1 / 2) 0))"
    by (rule t[THEN conjunct2, THEN conjunct1, THEN mp]) (simp add: INT_MAX_def)
  have "\<exists>result. runBattle [100, 90, 81]
       [PanicSell (new_PanicSellStrategy 1000 DEFAULT_PANIC_THRESHOLD 0),
        DCA (new_DCAStrategy 1000 DEFAULT_DCA_DROP_RATE 5 (1 / 4) 0),
        Hold (new_HoldStrategy 1000 (1 / 2) 0)] = Some result
     \<and> list_all2 (\<lambda>s s'. length (equityHistory (ledger s'))
          = length (equityHistory (ledger s)) + length [100, 90, 81 :: int])
       [PanicSell (new_PanicSellStrategy 1000 DEFAULT_PANIC_THRESHOLD 0),
        DCA (new_DCAStrategy 1000 DEFAULT_DCA_DROP_RATE 5 (1 / 4) 0),
        Hold (new_HoldStrategy 1000 (1 / 2) 0)] result"
    using t[THEN conjunct2, THEN conjunct2, THEN conjunct1, THEN mp] r
    by (fastforce simp: INT_MAX_def elim: list_all2_mono)
  then obtain result where res: "runBattle [100, 90, 81]
       [PanicSell (new_PanicSellStrategy 1000 DEFAULT_PANIC_THRESHOLD 0),
        DCA (new_DCAStrategy 1000 DEFAULT_DCA_DROP_RATE 5 (1 / 4) 0),
        Hold (new_HoldStrategy 1000 (1 / 2) 0)] = Some result"
    and l: "list_all2 (\<lambda>s s'. length (equityHistory (ledger s'))
          = length (equityHistory (ledger s)) + length [100, 90, 81 :: int])
       [PanicSell (new_PanicSellStrategy 1000 DEFAULT_PANIC_THRESHOLD 0),
        DCA (new_DCAStrategy 1000 DEFAULT_DCA_DROP_RATE 5 (1 / 4) 0),
        Hold (new_HoldStrategy 1000 (1 / 2) 0)] result" by blast
  have "list_all2 (\<lambda>s s'. length (equityHistory (ledger s')) = 3)
       [PanicSell (new_PanicSellStrategy 1000 DEFAULT_PANIC_THRESHOLD 0),
        DCA (new_DCAStrategy 1000 DEFAULT_DCA_DROP_RATE 5 (1 / 4) 0),
        Hold (new_HoldStrategy 1000 (1 / 2) 0)] result"
    using l e by (auto simp: list_all2_Cons1)
  with res have first: "\<exists>result. runBattle [100, 90, 81]
       [PanicSell (new_PanicSellStrategy 1000 DEFAULT_PANIC_THRESHOLD 0),
        DCA (new_DCAStrategy 1000 DEFAULT_DCA_DROP_RATE 5 (1 / 4) 0),
        Hold (new_HoldStrategy 1000 (1 / 2) 0)] = Some result
     \<and> list_all2 (\<lambda>s s'. length (equityHistory (ledger s')) = 3)
       [PanicSell (new_PanicSellStrategy 1000 DEFAULT_PANIC_THRESHOLD 0),
        DCA (new_DCAStrategy 1000 DEFAULT_DCA_DROP_RATE 5 (1 / 4) 0),
        Hold (new_HoldStrategy 1000 (1 / 2) 0)] result" by blast
  have second: "list_all2 (\<lambda>s s'. length (equityHistory (ledger s'))
          = length (equityHistory (ledger s)) + 3)
       [PanicSell (new_PanicSellStrategy 1000 DEFAULT_PANIC_THRESHOLD 0),
        DCA (new_DCAStrategy 1000 DEFAULT_DCA_DROP_RATE 5 (1 / 4) 0),
        Hold (new_HoldStrategy 1000 (1 / 2) 0)]
       [PanicSell \<lparr>cash = 900, shares = 0, avgPrice = 0, equityHistory = [1000, 900, 900],
          buyCount = 1, sellCount = 1, stopLossRate = DEFAULT_PANIC_THRESHOLD, feeRate = 0,
          hasBought = True\<rparr>,
        DCA \<lparr>cash = 539, shares = 5, avgPrice = 92, equityHistory = [1000, 980, 944],
          buyCount = 3, sellCount = 0, dcaDropRate = DEFAULT_DCA_DROP_RATE, dcaInterval = 5,
          buyRatio = 1 / 4, feeRate = 0, lastBuyIndex = 2, lastBuyPrice = 81\<rparr>,
        Hold \<lparr>cash = 500, shares = 5, avgPrice = 100, equityHistory = [1000, 950, 905],
          buyCount = 1, sellCount = 0, initialBuyRatio = 1 / 2, feeRate = 0,
          hasBought = True\<rparr>]"
    by (rule list_all2_mono[OF t[THEN conjunct2, THEN conjunct2, THEN conjunct2, THEN mp,
            OF scenario_run]]) auto
  from first second show ?thesis by (rule conjI)
qed

text \<open>
  C4 as stated, for every price series, fails at a price of 0. The strategy has the cash
  for the price (\<open>cash \<ge> 0\<close>), so it computes the quantity
  \<^verbatim>\<open>cash / (price + (int)(price * feeRate))\<close>; the divisor is 0 and the division has no
  result: the run does not complete and no snapshot is recorded.
\<close>

theorem runBattle_zero_price_counterexample:
  "runBattle [0]
     [PanicSell (new_PanicSellStrategy DEFAULT_INITIAL_CASH DEFAULT_PANIC_THRESHOLD
        DEFAULT_FEE_RATE)] = None"
  by (simp add: runBattle_def run_loop_step PanicSell_onPrice_def new_PanicSellStrategy_def
      DEFAULT_INITIAL_CASH_def per_share_def dmul_def int_to_double_def double_to_int_def
      trunc_zero_def chk_int_def INT_MIN_def INT_MAX_def long_div_def)

section \<open>Maximum drawdown\<close>

lemma drawdown_unit:
  assumes "0 \<le> d" "d \<le> p" "0 < p"
  shows "0 \<le> ddiv (long_to_double d) (long_to_double p)"
    and "ddiv (long_to_double d) (long_to_double p) \<le> 1"
proof -
  have p: "0 < long_to_double p"
    unfolding long_to_double_def using assms(3) by (intro round_double_pos_pos) simp
  have d: "0 \<le> long_to_double d"
    unfolding long_to_double_def using assms(1) by (intro round_double_nonneg) simp
  have dp: "long_to_double d \<le> long_to_double p"
    unfolding long_to_double_def using assms(2) by (intro round_double_mono) simp
  have "0 \<le> long_to_double d / long_to_double p" using p d by simp
  then show "0 \<le> ddiv (long_to_double d) (long_to_double p)"
    unfolding ddiv_def by (rule round_double_nonneg)
  have "long_to_double d / long_to_double p \<le> 1" using p dp by simp
  then have "round_double (long_to_double d / long_to_double p) \<le> round_double 1"
    by (rule round_double_mono)
  then show "ddiv (long_to_double d) (long_to_double p) \<le> 1"
    by (simp add: ddiv_def)
qed

lemma mdd_loop_unit:
  assumes "\<forall>e \<in> set h. 0 \<le> e \<and> e \<le> LONG_MAX" "0 \<le> peak" "peak \<le> LONG_MAX"
    "0 \<le> m" "m \<le> 1"
  shows "\<exists>r. mdd_loop h peak m = Some r \<and> 0 \<le> r \<and> r \<le> 1"
  using assms
proof (induction h arbitrary: peak m)
  case Nil
  then show ?case by simp
next
  case (Cons e h)
  let ?p = "if peak < e then e else peak"
  have e: "0 \<le> e" "e \<le> LONG_MAX" using Cons.prems(1) by simp_all
  have p: "0 \<le> ?p" "?p \<le> LONG_MAX" "e \<le> ?p" using e Cons.prems(2,3) by simp_all
  have h: "\<forall>e \<in> set h. 0 \<le> e \<and> e \<le> LONG_MAX" using Cons.prems(1) by simp
  show ?case
  proof (cases "0 < ?p")
    case False
    then have "mdd_loop (e # h) peak m = mdd_loop h ?p m" by (simp add: Let_def)
    with Cons.IH[OF h p(1,2) Cons.prems(4,5)] show ?thesis by simp
  next
    case True
    let ?dd = "ddiv (long_to_double (?p - e)) (long_to_double ?p)"
    let ?m = "if m < ?dd then ?dd else m"
    have c: "chk_long (?p - e) = Some (?p - e)"
      using p e by (simp add: chk_long_def LONG_MIN_def LONG_MAX_def)
    have dd: "0 \<le> ?dd" "?dd \<le> 1"
      using drawdown_unit[of "?p - e" ?p] p e True by simp_all
    have m: "0 \<le> ?m" "?m \<le> 1" using dd Cons.prems(4,5) by simp_all
    have "mdd_loop (e # h) peak m = mdd_loop h ?p ?m"
      using True c by (simp add: Let_def)
    with Cons.IH[OF h p(1,2) m] show ?thesis by simp
  qed
qed

lemma mdd_loop_sorted:
  assumes "sorted h" "peak \<le> 0 \<or> (\<forall>e \<in> set h. peak \<le> e)"
  shows "mdd_loop h peak 0 = Some 0"
  using assms
proof (induction h arbitrary: peak)
  case Nil
  then show ?case by simp
next
  case (Cons e h)
  let ?p = "if peak < e then e else peak"
  have s: "sorted h" "\<forall>x \<in> set h. e \<le> x" using Cons.prems(1) by simp_all
  show ?case
  proof (cases "0 < ?p")
    case False
    then have "?p \<le> 0" by simp
    then have "mdd_loop h ?p 0 = Some 0" using Cons.IH[OF s(1)] by blast
    with False show ?thesis by (simp add: Let_def)
  next
    case True
    then have pe: "?p = e" using Cons.prems(2) by (auto split: if_splits)
    have "\<forall>x \<in> set h. ?p \<le> x" using s(2) pe by simp
    then have "mdd_loop h ?p 0 = Some 0" using Cons.IH[OF s(1)] by blast
    moreover have "mdd_loop (e # h) peak 0 = mdd_loop h ?p 0"
      using True pe by (simp add: Let_def chk_long_def LONG_MIN_def LONG_MAX_def ddiv_def
          long_to_double_def)
    ultimately show ?thesis by simp
  qed
qed

text \<open>
  C8 (as amended). \<open>calculateMDD\<close> returns 0 for the empty series and for every
  non-decreasing series; for every series of non-negative values it returns a value in
  \<open>[0, 100]\<close>.
\<close>

theorem calculateMDD_range:
  "calculateMDD [] = Some 0
   \<and> (sorted h \<longrightarrow> calculateMDD h = Some 0)
   \<and> ((\<forall>e \<in> set h. 0 \<le> e \<and> e \<le> LONG_MAX) \<longrightarrow>
        (\<exists>r. calculateMDD h = Some r \<and> 0 \<le> r \<and> r \<le> 100))"
proof (intro conjI impI)
  show "calculateMDD [] = Some 0" by (simp add: calculateMDD_def)
next
  assume "sorted h"
  then have "mdd_loop h 0 0 = Some 0" by (intro mdd_loop_sorted) simp_all
  then show "calculateMDD h = Some 0" by (simp add: calculateMDD_def dmul_def)
next
  assume a: "\<forall>e \<in> set h. 0 \<le> e \<and> e \<le> LONG_MAX"
  from mdd_loop_unit[OF a, of 0 0] obtain m where
    m: "mdd_loop h 0 0 = Some m" "0 \<le> m" "m \<le> 1"
    by (auto simp: LONG_MAX_def)
  have "0 \<le> m * 100" using m by simp
  then have lo: "0 \<le> dmul m 100" unfolding dmul_def by (rule round_double_nonneg)
  have "m * 100 \<le> 100" using m by simp
  then have "round_double (m * 100) \<le> round_double 100" by (rule round_double_mono)
  then have hi: "dmul m 100 \<le> 100" by (simp add: dmul_def)
  show "\<exists>r. calculateMDD h = Some r \<and> 0 \<le> r \<and> r \<le> 100"
    using m lo hi by (cases "h = []") (simp_all add: calculateMDD_def)
qed

theorem calculateMDD_range_witness:
  "calculateMDD [100, 200, 200, 300] = Some 0
   \<and> (\<exists>r. calculateMDD [1000, 900, 900] = Some r \<and> 0 \<le> r \<and> r \<le> 100)"
  using calculateMDD_range[of "[100, 200, 200, 300]"] calculateMDD_range[of "[1000, 900, 900]"]
  by (simp add: LONG_MAX_def)

text \<open>
  C8 as stated fails for a series with a negative value: the peak 1 followed by \<open>- 1\<close> is a
  drawdown of 200 percent.
\<close>

theorem calculateMDD_counterexample:
  "calculateMDD [1, - 1] = Some 200 \<and> \<not> (200 :: real) \<le> 100"
  by (simp add: calculateMDD_def Let_def chk_long_def LONG_MIN_def LONG_MAX_def ddiv_def
      dmul_def long_to_double_def)

section \<open>Ranking\<close>

lemma swap_adjacent:
  assumes "Suc j < length xs"
  shows "xs[j := xs ! Suc j, Suc j := xs ! j]
       = take j xs @ [xs ! Suc j, xs ! j] @ drop (Suc (Suc j)) xs"
proof -
  have "xs = take j xs @ xs ! j # xs ! Suc j # drop (Suc (Suc j)) xs"
    using assms by (simp add: Cons_nth_drop_Suc Suc_lessD)
  then obtain a b c where x: "xs = a @ xs ! j # xs ! Suc j # c" and a: "a = take j xs"
    and c: "c = drop (Suc (Suc j)) xs" by blast
  have la: "length a = j" using a assms by simp
  have "(a @ xs ! j # xs ! Suc j # c)[j := xs ! Suc j, Suc j := xs ! j]
      = a @ [xs ! Suc j, xs ! j] @ c"
    using la by (simp add: list_update_append)
  then show ?thesis using x a c by metis
qed


lemma rank_inner_step:
  "j < length xs - 1 - i \<Longrightarrow>
     rank_inner xs i j =
       rank_inner (if totalReturn (xs ! j) < totalReturn (xs ! (j + 1))
                   then xs[j := xs ! (j + 1), j + 1 := xs ! j] else xs) i (j + 1)"
  by (subst rank_inner.simps) simp

lemma rank_inner_done: "\<not> j < length xs - 1 - i \<Longrightarrow> rank_inner xs i j = xs"
  by (subst rank_inner.simps) simp

lemma filter_swap_adjacent:
  assumes "Suc j < length xs" "f (xs ! j) \<noteq> f (xs ! Suc j)"
  shows "filter (\<lambda>r. f r = v) (xs[j := xs ! Suc j, Suc j := xs ! j])
       = filter (\<lambda>r. f r = v) xs"
proof -
  have x: "xs = take j xs @ [xs ! j, xs ! Suc j] @ drop (Suc (Suc j)) xs"
    using assms(1) by (simp add: Cons_nth_drop_Suc Suc_lessD)
  have "filter (\<lambda>r. f r = v) (take j xs @ [xs ! Suc j, xs ! j] @ drop (Suc (Suc j)) xs)
      = filter (\<lambda>r. f r = v) (take j xs @ [xs ! j, xs ! Suc j] @ drop (Suc (Suc j)) xs)"
    using assms(2) by auto
  also have "\<dots> = filter (\<lambda>r. f r = v) xs"
    using arg_cong[OF x, of "filter (\<lambda>r. f r = v)"] by simp
  finally show ?thesis unfolding swap_adjacent[OF assms(1)] .
qed

lemma rank_inner_props:
  "length (rank_inner xs i j) = length xs
   \<and> mset (rank_inner xs i j) = mset xs
   \<and> (\<forall>v. filter (\<lambda>r. totalReturn r = v) (rank_inner xs i j)
          = filter (\<lambda>r. totalReturn r = v) xs)
   \<and> drop (length xs - i) (rank_inner xs i j) = drop (length xs - i) xs"
proof (induction xs i j rule: rank_inner.induct)
  case (1 xs i j)
  show ?case
  proof (cases "j < length xs - 1 - i")
    case False
    then show ?thesis by (simp add: rank_inner_done)
  next
    case True
    then have sj: "Suc j < length xs" and ji: "Suc j < length xs - i" by simp_all
    let ?xs = "if totalReturn (xs ! j) < totalReturn (xs ! (j + 1))
               then xs[j := xs ! (j + 1), j + 1 := xs ! j] else xs"
    have l: "length ?xs = length xs" by simp
    have m: "mset ?xs = mset xs" using sj by (simp add: mset_swap)
    have f: "filter (\<lambda>r. totalReturn r = v) ?xs = filter (\<lambda>r. totalReturn r = v) xs" for v
      using sj filter_swap_adjacent[of j xs totalReturn v] by simp
    have d: "drop (length xs - i) ?xs = drop (length xs - i) xs"
      using ji by simp
    note ih = "1.IH"[OF True]
    show ?thesis
      unfolding rank_inner_step[OF True] using ih l m f d by simp
  qed
qed


lemma rank_inner_min:
  assumes "i < length xs" "j \<le> length xs - 1 - i"
    "\<forall>k \<le> j. totalReturn (xs ! j) \<le> totalReturn (xs ! k)"
  shows "\<forall>k \<le> length xs - 1 - i.
           totalReturn (rank_inner xs i j ! (length xs - 1 - i))
             \<le> totalReturn (rank_inner xs i j ! k)"
  using assms
proof (induction xs i j rule: rank_inner.induct)
  case (1 xs i j)
  show ?case
  proof (cases "j < length xs - 1 - i")
    case False
    with "1.prems"(2) have "j = length xs - 1 - i" by simp
    then show ?thesis using "1.prems"(3) by (simp add: rank_inner_done)
  next
    case True
    then have sj: "j + 1 < length xs" by simp
    let ?xs = "if totalReturn (xs ! j) < totalReturn (xs ! (j + 1))
               then xs[j := xs ! (j + 1), j + 1 := xs ! j] else xs"
    have l: "length ?xs = length xs" by simp
    have mn: "\<forall>k \<le> j + 1. totalReturn (?xs ! (j + 1)) \<le> totalReturn (?xs ! k)"
    proof (intro allI impI)
      fix k assume k: "k \<le> j + 1"
      show "totalReturn (?xs ! (j + 1)) \<le> totalReturn (?xs ! k)"
      proof (cases "totalReturn (xs ! j) < totalReturn (xs ! (j + 1))")
        case True
        then show ?thesis
          using "1.prems"(3) k sj
          by (cases "k = j + 1"; cases "k = j") (auto simp: nth_list_update)
      next
        case False
        then show ?thesis
          using "1.prems"(3)[rule_format, of k] k
          by (cases "k = j + 1") auto
      qed
    qed
    have "\<forall>k \<le> length ?xs - 1 - i.
           totalReturn (rank_inner ?xs i (j + 1) ! (length ?xs - 1 - i))
             \<le> totalReturn (rank_inner ?xs i (j + 1) ! k)"
      using "1.IH"[OF True] "1.prems"(1) True mn l by simp
    then show ?thesis
      unfolding rank_inner_step[OF True] l .
  qed
qed


lemma rank_outer_step:
  "i < length xs \<Longrightarrow> rank_outer xs i = rank_outer (rank_inner xs i 0) (i + 1)"
  by (subst rank_outer.simps) simp

lemma rank_outer_done: "\<not> i < length xs \<Longrightarrow> rank_outer xs i = xs"
  by (subst rank_outer.simps) simp

lemma rank_inner_sorted_id:
  assumes "sorted_wrt (\<lambda>a b. totalReturn b \<le> totalReturn a) xs"
  shows "rank_inner xs i j = xs"
  using assms
proof (induction xs i j rule: rank_inner.induct)
  case (1 xs i j)
  show ?case
  proof (cases "j < length xs - 1 - i")
    case False
    then show ?thesis by (simp add: rank_inner_done)
  next
    case True
    then have "j + 1 < length xs" by simp
    then have "totalReturn (xs ! (j + 1)) \<le> totalReturn (xs ! j)"
      using sorted_wrt_nth_less[OF "1.prems", of j "j + 1"] by simp
    then have n: "\<not> totalReturn (xs ! j) < totalReturn (xs ! (j + 1))" by simp
    show ?thesis
      unfolding rank_inner_step[OF True] using "1.IH"[OF True] "1.prems" n by simp
  qed
qed

lemma rank_outer_sorted_id:
  assumes "sorted_wrt (\<lambda>a b. totalReturn b \<le> totalReturn a) xs"
  shows "rank_outer xs i = xs"
  using assms
proof (induction xs i rule: rank_outer.induct)
  case (1 xs i)
  show ?case
  proof (cases "i < length xs")
    case False
    then show ?thesis by (simp add: rank_outer_done)
  next
    case True
    show ?thesis
      unfolding rank_outer_step[OF True]
      using "1.IH"[OF True] "1.prems" by (simp add: rank_inner_sorted_id)
  qed
qed

lemma rank_outer_props:
  "length (rank_outer xs i) = length xs
   \<and> mset (rank_outer xs i) = mset xs
   \<and> (\<forall>v. filter (\<lambda>r. totalReturn r = v) (rank_outer xs i)
          = filter (\<lambda>r. totalReturn r = v) xs)"
proof (induction xs i rule: rank_outer.induct)
  case (1 xs i)
  show ?case
  proof (cases "i < length xs")
    case False
    then show ?thesis by (simp add: rank_outer_done)
  next
    case True
    show ?thesis
      unfolding rank_outer_step[OF True]
      using "1.IH"[OF True] rank_inner_props[of xs i 0] by simp
  qed
qed

lemma pass_invariant:
  assumes i: "i < length xs"
    and s: "sorted_wrt (\<lambda>a b. totalReturn b \<le> totalReturn a) (drop (length xs - i) xs)"
    and b: "\<forall>x \<in> set (take (length xs - i) xs). \<forall>y \<in> set (drop (length xs - i) xs).
              totalReturn y \<le> totalReturn x"
  shows "sorted_wrt (\<lambda>a b. totalReturn b \<le> totalReturn a)
           (drop (length xs - (i + 1)) (rank_inner xs i 0))
       \<and> (\<forall>x \<in> set (take (length xs - (i + 1)) (rank_inner xs i 0)).
            \<forall>y \<in> set (drop (length xs - (i + 1)) (rank_inner xs i 0)).
              totalReturn y \<le> totalReturn x)"
proof -
  let ?ys = "rank_inner xs i 0"
  let ?n = "length xs"
  let ?b = "?n - 1 - i"
  note p = rank_inner_props[of xs i 0]
  have l: "length ?ys = ?n" using p by simp
  have bn: "?b < ?n" "Suc ?b = ?n - i" "?n - (i + 1) = ?b" using i by simp_all
  have d: "drop (?n - i) ?ys = drop (?n - i) xs" using p by simp
  have "mset (take (?n - i) ?ys) + mset (drop (?n - i) ?ys) = mset ?ys"
    by (metis append_take_drop_id mset_append)
  moreover have "mset (take (?n - i) xs) + mset (drop (?n - i) xs) = mset xs"
    by (metis append_take_drop_id mset_append)
  ultimately have "mset (take (?n - i) ?ys) + mset (drop (?n - i) xs)
      = mset (take (?n - i) xs) + mset (drop (?n - i) xs)"
    using p d by simp
  then have "mset (take (?n - i) ?ys) = mset (take (?n - i) xs)"
    by (simp only: add_right_cancel)
  then have st: "set (take (?n - i) ?ys) = set (take (?n - i) xs)"
    by (rule mset_eq_setD)
  have mn: "\<forall>k \<le> ?b. totalReturn (?ys ! ?b) \<le> totalReturn (?ys ! k)"
    using rank_inner_min[of i xs 0] i by simp
  have mn': "totalReturn (?ys ! ?b) \<le> totalReturn x" if "x \<in> set (take (Suc ?b) ?ys)" for x
  proof -
    from that obtain k where "k < Suc ?b" "x = ?ys ! k"
      using l bn by (auto simp: in_set_conv_nth)
    then show ?thesis using mn by simp
  qed
  have db: "drop ?b ?ys = ?ys ! ?b # drop (?n - i) xs"
    using Cons_nth_drop_Suc[of ?b ?ys] l bn d by simp
  have "take (Suc ?b) ?ys ! ?b \<in> set (take (Suc ?b) ?ys)"
    using l bn by (intro nth_mem) simp
  then have "?ys ! ?b \<in> set (take (Suc ?b) ?ys)" by simp
  then have yb: "?ys ! ?b \<in> set (take (?n - i) xs)"
    using st bn by simp
  have sub: "set (take ?b ?ys) \<subseteq> set (take (Suc ?b) ?ys)"
    by (rule set_take_subset_set_take) simp
  have "sorted_wrt (\<lambda>a b. totalReturn b \<le> totalReturn a) (drop ?b ?ys)"
    unfolding db using s b yb by simp
  moreover have "\<forall>x \<in> set (take ?b ?ys). \<forall>y \<in> set (drop ?b ?ys).
      totalReturn y \<le> totalReturn x"
  proof (intro ballI)
    fix x y assume x: "x \<in> set (take ?b ?ys)" and y: "y \<in> set (drop ?b ?ys)"
    from x sub have x': "x \<in> set (take (Suc ?b) ?ys)" by blast
    then have x'': "x \<in> set (take (?n - i) xs)" using st bn by simp
    from y have "y = ?ys ! ?b \<or> y \<in> set (drop (?n - i) xs)" unfolding db by simp
    then show "totalReturn y \<le> totalReturn x"
      using mn'[OF x'] b x'' by blast
  qed
  ultimately show ?thesis unfolding bn(3) by blast
qed

lemma rank_outer_sorted:
  assumes "i \<le> length xs"
    and "sorted_wrt (\<lambda>a b. totalReturn b \<le> totalReturn a) (drop (length xs - i) xs)"
    and "\<forall>x \<in> set (take (length xs - i) xs). \<forall>y \<in> set (drop (length xs - i) xs).
              totalReturn y \<le> totalReturn x"
  shows "sorted_wrt (\<lambda>a b. totalReturn b \<le> totalReturn a) (rank_outer xs i)"
  using assms
proof (induction xs i rule: rank_outer.induct)
  case (1 xs i)
  show ?case
  proof (cases "i < length xs")
    case False
    with "1.prems"(1) have "i = length xs" by simp
    then show ?thesis using "1.prems"(2) False by (simp add: rank_outer_done)
  next
    case True
    have l: "length (rank_inner xs i 0) = length xs"
      using rank_inner_props[of xs i 0] by simp
    note pi = pass_invariant[OF True "1.prems"(2,3)]
    show ?thesis
      unfolding rank_outer_step[OF True]
      using "1.IH"[OF True] True pi unfolding l by simp
  qed
qed


lemma ranking_props:
  "mset (ranking rs) = mset rs"
  "sorted_wrt (\<lambda>a b. totalReturn b \<le> totalReturn a) (ranking rs)"
  "filter (\<lambda>r. totalReturn r = v) (ranking rs) = filter (\<lambda>r. totalReturn r = v) rs"
proof -
  show "mset (ranking rs) = mset rs"
    using rank_outer_props[of rs 0] by (simp add: ranking_def)
  show "filter (\<lambda>r. totalReturn r = v) (ranking rs) = filter (\<lambda>r. totalReturn r = v) rs"
    using rank_outer_props[of rs 0] by (simp add: ranking_def)
  show "sorted_wrt (\<lambda>a b. totalReturn b \<le> totalReturn a) (ranking rs)"
    unfolding ranking_def by (rule rank_outer_sorted) simp_all
qed

lemma ranking_sort_key: "ranking rs = sort_key (\<lambda>r. - totalReturn r) rs"
proof (rule properties_for_sort_key[symmetric])
  show "mset (ranking rs) = mset rs" by (rule ranking_props)
next
  fix k
  have e: "filter (\<lambda>x. - totalReturn k = - totalReturn x) ys
      = filter (\<lambda>r. totalReturn r = totalReturn k) ys" for ys
    by (rule filter_cong) auto
  show "filter (\<lambda>x. - totalReturn k = - totalReturn x) (ranking rs)
      = filter (\<lambda>x. - totalReturn k = - totalReturn x) rs"
    unfolding e by (rule ranking_props(3))
next
  show "sorted (map (\<lambda>r. - totalReturn r) (ranking rs))"
    using ranking_props(2)[of rs] by (simp add: sorted_map)
qed

text \<open>
  C9. The ranking is a permutation of the reports, sorted by descending total return, and
  stable: reports with the same return keep their order, so the ranking is the stable sort
  by descending return. An input that is already sorted is returned as it is, and ranking
  twice is ranking once.
\<close>

theorem ranking_sorted_stable:
  "mset (ranking rs) = mset rs
   \<and> sorted_wrt (\<lambda>a b. totalReturn b \<le> totalReturn a) (ranking rs)
   \<and> (\<forall>v. filter (\<lambda>r. totalReturn r = v) (ranking rs) = filter (\<lambda>r. totalReturn r = v) rs)
   \<and> ranking rs = sort_key (\<lambda>r. - totalReturn r) rs
   \<and> (sorted_wrt (\<lambda>a b. totalReturn b \<le> totalReturn a) rs \<longrightarrow> ranking rs = rs)
   \<and> ranking (ranking rs) = ranking rs"
proof (intro conjI allI impI)
  show "mset (ranking rs) = mset rs" by (rule ranking_props)
  show "sorted_wrt (\<lambda>a b. totalReturn b \<le> totalReturn a) (ranking rs)" by (rule ranking_props)
  show "filter (\<lambda>r. totalReturn r = v) (ranking rs) = filter (\<lambda>r. totalReturn r = v) rs" for v
    by (rule ranking_props)
  show "ranking rs = sort_key (\<lambda>r. - totalReturn r) rs" by (rule ranking_sort_key)
  show "ranking rs = rs" if "sorted_wrt (\<lambda>a b. totalReturn b \<le> totalReturn a) rs"
    using that by (simp add: ranking_def rank_outer_sorted_id)
  show "ranking (ranking rs) = ranking rs"
    using ranking_props(2)[of rs] by (simp add: ranking_def rank_outer_sorted_id)
qed

theorem ranking_sorted_stable_witness:
  "ranking [mk_report ''Holder'' 5, mk_report ''DCA'' 5, mk_report ''Panic Seller'' (- 10)]
     = [mk_report ''Holder'' 5, mk_report ''DCA'' 5, mk_report ''Panic Seller'' (- 10)]"
  by (rule ranking_sorted_stable[THEN conjunct2, THEN conjunct2, THEN conjunct2, THEN conjunct2,
        THEN conjunct1, THEN mp])
     (simp add: mk_report_def)

lemma ranking_example:
  "ranking [mk_report ''Panic Seller'' (- 10), mk_report ''DCA'' 5, mk_report ''Holder'' 5]
     = [mk_report ''DCA'' 5, mk_report ''Holder'' 5, mk_report ''Panic Seller'' (- 10)]"
  by (simp add: ranking_def rank_outer.simps rank_inner.simps mk_report_def)

end
